theory Spec2Isabelle
  imports Complex_Main "HOL-Library.Sublist" "HOL-Library.Char_ord" "HOL-Library.List_Lexorder"
    "HOL-Library.Multiset"
begin

section \<open>Strings and decimal numerals\<close>

text \<open>
  Python strings are modelled as \<^typ>\<open>string\<close>, one \<^typ>\<open>char\<close> per code point, so the
  model covers text whose code points are below 256. In that range the only characters
  matched by the regular expression class \<^verbatim>\<open>\d\<close> are the ASCII digits.
\<close>

definition is_digit :: "char \<Rightarrow> bool" where
  "is_digit c = ((48::nat) \<le> of_char c \<and> of_char c \<le> (57::nat))"

definition digit_char :: "nat \<Rightarrow> char" where
  "digit_char d = ''0123456789'' ! d"

definition digit_val :: "char \<Rightarrow> nat" where
  "digit_val c = of_char c - 48"

text \<open>\<^verbatim>\<open>str(n)\<close> for a non-negative integer: its decimal numeral, without leading zeros.\<close>

function py_str :: "nat \<Rightarrow> string" where
  "py_str n = (if n < 10 then [digit_char n] else py_str (n div 10) @ [digit_char (n mod 10)])"
  by pat_completeness auto
termination
  by (relation "measure id") auto

declare py_str.simps [simp del]

text \<open>\<^verbatim>\<open>int(s)\<close> on a string of decimal digits (the only strings the source passes to it).\<close>

definition py_int :: "string \<Rightarrow> nat" where
  "py_int s = foldl (\<lambda>a c. 10 * a + digit_val c) 0 s"

text \<open>
  \<^verbatim>\<open>s.zfill(width)\<close>: pad on the left with zeros up to the width; a leading sign stays
  in front of the padding.
\<close>

definition zfill :: "nat \<Rightarrow> string \<Rightarrow> string" where
  "zfill width s =
     (if width \<le> length s then s
      else (case s of
              c # cs \<Rightarrow>
                if c = CHR ''+'' \<or> c = CHR ''-''
                then c # replicate (width - length s) CHR ''0'' @ cs
                else replicate (width - length s) CHR ''0'' @ s
            | [] \<Rightarrow> replicate width CHR ''0''))"

section \<open>pdf-to-image.py: numbered page images\<close>

text \<open>
  \<^verbatim>\<open>zfill_width = len(str(page_count))\<close> and, in the loop over \<^verbatim>\<open>range(page_count)\<close>,
  \<^verbatim>\<open>image_name = f"{str(i + 1).zfill(zfill_width)}.png"\<close>.
\<close>

definition zfill_width :: "nat \<Rightarrow> nat" where
  "zfill_width page_count = length (py_str page_count)"

definition image_name :: "nat \<Rightarrow> nat \<Rightarrow> string" where
  "image_name page_count i = zfill (zfill_width page_count) (py_str (i + 1)) @ ''.png''"

text \<open>
  The names written by \<^verbatim>\<open>convert_pdf_to_numbered_images\<close> for a document of
  \<^verbatim>\<open>page_count\<close> pages, in the order of the loop; an empty document returns before
  the loop.
\<close>

definition image_names :: "nat \<Rightarrow> string list" where
  "image_names page_count =
     (if page_count = 0 then [] else map (image_name page_count) [0..<page_count])"

section \<open>pdf-to-beamer.py: errors, files and the environment\<close>

text \<open>
  The exceptions the code can raise: \<open>ZeroDivisionError\<close> (float division),
  \<open>AttributeError\<close> (\<^verbatim>\<open>.group\<close> of a failed \<^verbatim>\<open>re.search\<close>), \<open>OSError\<close> (a file that
  cannot be opened, read or written) and \<open>LibraryError\<close> (anything raised inside
  PyMuPDF, pdf2image or the OpenAI client). The last four constructors are the error
  names of the design document; the source defines no exception class of its own.
\<close>

datatype error =
    ZeroDivisionError
  | AttributeError
  | OSError
  | LibraryError string
  | MalformedPageError
  | AssemblyError
  | SourceDocumentError
  | GenerationError

text \<open>
  Files are a map from path to text content (the text a UTF-8 reader finds in the file,
  line ends as stored). What the operating system does when a path
  is opened for writing is an input of the model: the write goes through, the open
  fails, or the write stops after the given number of characters.
\<close>

type_synonym files = "string \<rightharpoonup> string"

datatype io_fault = NoFault | OpenFails | WriteFails nat

definition nl :: string where
  "nl = [CHR 0x0A]"

definition backslash :: char where
  "backslash = CHR 0x5C"

text \<open>
  \<^verbatim>\<open>with open(path, "w") as f: f.write(data)\<close>. The file at \<open>path\<close> itself is created or
  truncated by the open and receives the data; no other path is touched.
\<close>

definition write_file :: "string \<Rightarrow> string \<Rightarrow> io_fault \<Rightarrow> files \<Rightarrow> files \<times> error option" where
  "write_file path data fault fs =
     (case fault of
        OpenFails \<Rightarrow> (fs, Some OSError)
      | WriteFails n \<Rightarrow> (fs(path \<mapsto> take n data), Some OSError)
      | NoFault \<Rightarrow> (fs(path \<mapsto> data), None))"

text \<open>POSIX \<^verbatim>\<open>os.path.join(a, b)\<close>.\<close>

definition path_join :: "string \<Rightarrow> string \<Rightarrow> string" where
  "path_join a b =
     (if prefix ''/'' b then b
      else if a = [] \<or> suffix ''/'' a then a @ b
      else a @ ''/'' @ b)"

subsection \<open>Regular expressions\<close>

text \<open>
  \<^verbatim>\<open>re.sub(pat, "", s)\<close> for a pattern without metacharacters: scanning from the left,
  every occurrence of \<open>pat\<close> is dropped and the scan goes on behind it.
\<close>

function re_sub_del :: "string \<Rightarrow> string \<Rightarrow> string" where
  "re_sub_del pat [] = []"
| "re_sub_del pat (c # cs) =
     (if pat \<noteq> [] \<and> prefix pat (c # cs)
      then re_sub_del pat (drop (length pat) (c # cs))
      else c # re_sub_del pat cs)"
  by pat_completeness auto
termination
  by (relation "measure (\<lambda>(pat, s). length s)") auto

text \<open>
  \<^verbatim>\<open>re.search(r"_page_(\d+)\.tex", x)\<close>, returning group 1. A match at a position is
  the literal \<^verbatim>\<open>_page_\<close>, a non-empty run of digits, and the literal \<^verbatim>\<open>.tex\<close>; since the
  character after the run must be a dot, only the longest run of digits can match.
  The search returns the match at the leftmost position that has one.
\<close>

definition match_page_here :: "string \<Rightarrow> string option" where
  "match_page_here s =
     (if prefix ''_page_'' s
      then (let rest = drop 6 s; ds = takeWhile is_digit rest
            in if ds \<noteq> [] \<and> prefix ''.tex'' (dropWhile is_digit rest) then Some ds else None)
      else None)"

fun re_search_page :: "string \<Rightarrow> string option" where
  "re_search_page [] = None"
| "re_search_page (c # cs) =
     (case match_page_here (c # cs) of
        Some ds \<Rightarrow> Some ds
      | None \<Rightarrow> re_search_page cs)"

subsection \<open>\<^verbatim>\<open>create_latex_document\<close>\<close>

text \<open>
  \<^verbatim>\<open>str(frame)\<close>: the generator's answer is a string or \<^verbatim>\<open>None\<close>.
\<close>

definition str_of_frame :: "string option \<Rightarrow> string" where
  "str_of_frame frame = (case frame of None \<Rightarrow> ''None'' | Some s \<Rightarrow> s)"

definition clean_frame :: "string option \<Rightarrow> string" where
  "clean_frame frame = re_sub_del ''```'' (re_sub_del ''```latex'' (str_of_frame frame))"

definition create_latex_document ::
  "string option \<Rightarrow> string \<Rightarrow> io_fault \<Rightarrow> files \<Rightarrow> files \<times> error option" where
  "create_latex_document frame output_file fault fs =
     write_file output_file (clean_frame frame @ nl) fault fs"

subsection \<open>\<^verbatim>\<open>concat_beamer_files\<close>\<close>

definition preamble :: string where
  "preamble =
     [backslash] @ ''documentclass{beamer}'' @ nl @
     ''    '' @ [backslash] @ ''usepackage{textpos}'' @ nl @
     ''    '' @ [backslash] @ ''usepackage{graphicx}'' @ nl @
     ''    '' @ [backslash] @ ''begin{document}'' @ nl @
     ''    ''"

definition postamble :: string where
  "postamble = [backslash] @ ''end{document}''"

text \<open>
  The sort key \<^verbatim>\<open>int(re.search(...).group(1))\<close>; \<^verbatim>\<open>re.search\<close> returns \<^verbatim>\<open>None\<close> when
  nothing matches, and \<^verbatim>\<open>None.group\<close> raises \<open>AttributeError\<close>.
\<close>

definition page_key :: "string \<Rightarrow> error + nat" where
  "page_key x =
     (case re_search_page x of
        None \<Rightarrow> Inl AttributeError
      | Some ds \<Rightarrow> Inr (py_int ds))"

text \<open>
  \<^verbatim>\<open>sorted(xs, key=...)\<close> computes the key of every element, in order, and then sorts
  stably by the keys.
\<close>

fun keyed :: "string list \<Rightarrow> error + (nat \<times> string) list" where
  "keyed [] = Inr []"
| "keyed (x # xs) =
     (case page_key x of
        Inl e \<Rightarrow> Inl e
      | Inr k \<Rightarrow> (case keyed xs of Inl e \<Rightarrow> Inl e | Inr kxs \<Rightarrow> Inr ((k, x) # kxs)))"

definition sorted_by_page :: "string list \<Rightarrow> error + string list" where
  "sorted_by_page xs =
     (case keyed xs of
        Inl e \<Rightarrow> Inl e
      | Inr kxs \<Rightarrow> Inr (map snd (sort_key fst kxs)))"

text \<open>
  \<^verbatim>\<open>[os.path.join(output_dir, f) for f in os.listdir(output_dir) if f.endswith(".tex")]\<close>
\<close>

definition beamer_paths :: "string \<Rightarrow> string list \<Rightarrow> string list" where
  "beamer_paths output_dir names = map (path_join output_dir) (filter (suffix ''.tex'') names)"

text \<open>
  Reading in text mode (\<^verbatim>\<open>open(path, "r")\<close>, universal newlines): a carriage return,
  alone or followed by a line feed, is read as one line feed. Writing in text mode is
  modelled as on POSIX, where a line feed is written as it is.
\<close>

fun universal_newlines :: "string \<Rightarrow> string" where
  "universal_newlines [] = []"
| "universal_newlines [c] = (if c = CHR 0x0D then [CHR 0x0A] else [c])"
| "universal_newlines (c # d # ds) =
     (if c = CHR 0x0D \<and> d = CHR 0x0A then CHR 0x0A # universal_newlines ds
      else if c = CHR 0x0D then CHR 0x0A # universal_newlines (d # ds)
      else c # universal_newlines (d # ds))"

text \<open>
  The loop over \<^verbatim>\<open>beamer_files\<close>: each file is read in text mode and appended, with a
  newline, to what has been written to \<^verbatim>\<open>f_out\<close> so far. A file that cannot be read
  raises. When the output file is itself one of the files, it has been truncated by
  the open and holds, at the moment it is read, the part of the written text that has
  left the write buffer: the first \<open>flushed out\<close> characters of the text \<open>out\<close> written
  so far, where \<open>flushed\<close> is the buffering of the run, an input of the model.
\<close>

fun read_files ::
  "files \<Rightarrow> string \<Rightarrow> (string \<Rightarrow> nat) \<Rightarrow> string list \<Rightarrow> string \<Rightarrow> string \<times> error option" where
  "read_files fs output_file flushed [] out = (out, None)"
| "read_files fs output_file flushed (beamer_file # rest) out =
     (case (if beamer_file = output_file then Some (take (flushed out) out)
            else fs beamer_file) of
        None \<Rightarrow> (out, Some OSError)
      | Some content \<Rightarrow>
          read_files fs output_file flushed rest (out @ universal_newlines content @ nl))"

text \<open>
  \<open>listing\<close> is the outcome of \<^verbatim>\<open>os.listdir(output_dir)\<close>, \<open>fault\<close> what happens to
  the output file and \<open>flushed\<close> the buffering of the writes to it. The list is sorted
  before the output file is opened. The open truncates the output file; all that is
  written to it has reached the file when the \<^verbatim>\<open>with\<close> block has closed it, also when
  the block is left by an exception.
\<close>

definition concat_beamer_files ::
  "(error + string list) \<Rightarrow> io_fault \<Rightarrow> (string \<Rightarrow> nat) \<Rightarrow> string \<Rightarrow> string \<Rightarrow> files
     \<Rightarrow> files \<times> error option" where
  "concat_beamer_files listing fault flushed output_dir output_file fs =
     (case listing of
        Inl e \<Rightarrow> (fs, Some e)
      | Inr names \<Rightarrow>
          (case sorted_by_page (beamer_paths output_dir names) of
             Inl e \<Rightarrow> (fs, Some e)
           | Inr beamer_files \<Rightarrow>
               (case fault of
                  OpenFails \<Rightarrow> (fs, Some OSError)
                | _ \<Rightarrow>
                    (let (out, err) = read_files fs output_file flushed beamer_files (preamble @ nl);
                         data = (case err of None \<Rightarrow> out @ postamble @ nl | Some e \<Rightarrow> out);
                         (fs', werr) = write_file output_file data fault fs
                     in (fs', case werr of None \<Rightarrow> err | Some e \<Rightarrow> Some e)))))"

subsection \<open>\<^verbatim>\<open>extract_pdf_content\<close>\<close>

text \<open>
  A text block of \<^verbatim>\<open>page.get_text("blocks")\<close>: the bounding box and the text (the last
  two entries of the tuple are not used). Python floats are modelled as reals, and the
  rounding of a float operation as a function \<open>rnd\<close> applied to the exact result:
  \<open>rnd = id\<close> is exact arithmetic. Division by zero raises.

  The coordinates are those of PyMuPDF (\<^verbatim>\<open>import fitz\<close>): the origin is the top-left
  corner of the page and \<open>y\<close> grows downwards, so \<open>y0\<close> is the upper edge of the box,
  \<open>y1\<close> its lower edge, the top edge of the page is \<open>y = 0\<close> and its bottom edge is
  \<open>y = H\<close>.
\<close>

record text_block =
  b_x0 :: real
  b_y0 :: real
  b_x1 :: real
  b_y1 :: real
  b_text :: string

text \<open>
  A box reaches the top edge of the page when its upper edge has \<open>y0 = 0\<close>, and the
  bottom edge when its lower edge has \<open>y1 = H\<close>.
\<close>

definition at_top_edge :: "text_block \<Rightarrow> bool" where
  "at_top_edge b = (b_y0 b = 0)"

definition at_bottom_edge :: "real \<Rightarrow> text_block \<Rightarrow> bool" where
  "at_bottom_edge H b = (b_y1 b = H)"

record text_element =
  te_text :: string
  te_x :: real
  te_y :: real
  te_width :: real

text \<open>The outcome of \<^verbatim>\<open>doc.extract_image(xref)\<close>: the bytes and the native extension.\<close>

record base_image =
  bi_image :: string
  bi_ext :: string

text \<open>
  A loaded page: its text blocks, the outcome of decoding each entry of
  \<^verbatim>\<open>page.get_images()\<close>, and \<^verbatim>\<open>page.rect\<close>.
\<close>

record page =
  text_blocks :: "text_block list"
  images :: "(error + base_image) list"
  rect_width :: real
  rect_height :: real

record page_data =
  pd_page_num :: nat
  pd_text :: "text_element list"
  pd_images :: "string list"
  pd_dimensions :: "real \<times> real"

definition is_space :: "char \<Rightarrow> bool" where
  "is_space c = (of_char c \<in> {9, 10, 11, 12, 13, 28, 29, 30, 31, 32, 133, 160 :: nat})"

definition strip :: "string \<Rightarrow> string" where
  "strip s = rev (dropWhile is_space (rev (dropWhile is_space s)))"

definition py_truediv :: "(real \<Rightarrow> real) \<Rightarrow> real \<Rightarrow> real \<Rightarrow> error + real" where
  "py_truediv rnd a b = (if b = 0 then Inl ZeroDivisionError else Inr (rnd (a / b)))"

text \<open>
  The dictionary built for one block (lines 42 to 47), its entries evaluated in order:
  \<^verbatim>\<open>x0 / W\<close>, \<^verbatim>\<open>1 - y1 / H\<close>, \<^verbatim>\<open>(x1 - x0) / W\<close>.
\<close>

definition text_element_of :: "(real \<Rightarrow> real) \<Rightarrow> real \<Rightarrow> real \<Rightarrow> text_block \<Rightarrow> error + text_element" where
  "text_element_of rnd W H b =
     (case py_truediv rnd (b_x0 b) W of
        Inl e \<Rightarrow> Inl e
      | Inr x \<Rightarrow>
          (case py_truediv rnd (b_y1 b) H of
             Inl e \<Rightarrow> Inl e
           | Inr q \<Rightarrow>
               (case py_truediv rnd (rnd (b_x1 b - b_x0 b)) W of
                  Inl e \<Rightarrow> Inl e
                | Inr wd \<Rightarrow>
                    Inr \<lparr>te_text = strip (b_text b), te_x = x, te_y = rnd (1 - q),
                         te_width = wd\<rparr>)))"

fun text_elements_of :: "(real \<Rightarrow> real) \<Rightarrow> real \<Rightarrow> real \<Rightarrow> text_block list \<Rightarrow> error + text_element list" where
  "text_elements_of rnd W H [] = Inr []"
| "text_elements_of rnd W H (b # bs) =
     (case text_element_of rnd W H b of
        Inl e \<Rightarrow> Inl e
      | Inr t \<Rightarrow>
          (case text_elements_of rnd W H bs of
             Inl e \<Rightarrow> Inl e
           | Inr ts \<Rightarrow> Inr (t # ts)))"

definition img_name :: "nat \<Rightarrow> nat \<Rightarrow> string \<Rightarrow> string" where
  "img_name page_num img_index img_ext =
     ''page_'' @ py_str (page_num + 1) @ ''_image_'' @ py_str img_index @ ''.'' @ img_ext"

text \<open>
  The loop over \<^verbatim>\<open>enumerate(images)\<close>: decode, write, remember the path. There is no
  exception handler: the first image that cannot be decoded or written ends the loop
  with its exception.
\<close>

fun save_images ::
  "(string \<Rightarrow> io_fault) \<Rightarrow> string \<Rightarrow> nat \<Rightarrow> nat \<Rightarrow> (error + base_image) list \<Rightarrow> files
     \<Rightarrow> files \<times> (error + string list)" where
  "save_images faults images_dir page_num img_index [] fs = (fs, Inr [])"
| "save_images faults images_dir page_num img_index (img # imgs) fs =
     (case img of
        Inl e \<Rightarrow> (fs, Inl e)
      | Inr base \<Rightarrow>
          (let img_path = path_join images_dir (img_name page_num img_index (bi_ext base))
           in case write_file img_path (bi_image base) (faults img_path) fs of
                (fs', Some e) \<Rightarrow> (fs', Inl e)
              | (fs', None) \<Rightarrow>
                  (case save_images faults images_dir page_num (img_index + 1) imgs fs' of
                     (fs'', Inl e) \<Rightarrow> (fs'', Inl e)
                   | (fs'', Inr img_paths) \<Rightarrow> (fs'', Inr (img_path # img_paths)))))"

text \<open>The loop over \<^verbatim>\<open>range(len(doc))\<close>, from page \<open>page_num\<close> on.\<close>

fun extract_pages ::
  "(real \<Rightarrow> real) \<Rightarrow> (string \<Rightarrow> io_fault) \<Rightarrow> string \<Rightarrow> nat \<Rightarrow> page list \<Rightarrow> files
     \<Rightarrow> files \<times> (error + page_data list)" where
  "extract_pages rnd faults images_dir page_num [] fs = (fs, Inr [])"
| "extract_pages rnd faults images_dir page_num (p # ps) fs =
     (case save_images faults images_dir page_num 0 (images p) fs of
        (fs', Inl e) \<Rightarrow> (fs', Inl e)
      | (fs', Inr img_paths) \<Rightarrow>
          (case text_elements_of rnd (rect_width p) (rect_height p) (text_blocks p) of
             Inl e \<Rightarrow> (fs', Inl e)
           | Inr text_elements \<Rightarrow>
               (case extract_pages rnd faults images_dir (page_num + 1) ps fs' of
                  (fs'', Inl e) \<Rightarrow> (fs'', Inl e)
                | (fs'', Inr content) \<Rightarrow>
                    (fs'', Inr (\<lparr>pd_page_num = page_num, pd_text = text_elements,
                                 pd_images = img_paths,
                                 pd_dimensions = (rect_width p, rect_height p)\<rparr> # content)))))"

text \<open>\<open>opened\<close> is the outcome of \<^verbatim>\<open>fitz.open(pdf_path)\<close>.\<close>

definition extract_pdf_content ::
  "(real \<Rightarrow> real) \<Rightarrow> (string \<Rightarrow> io_fault) \<Rightarrow> (error + page list) \<Rightarrow> string \<Rightarrow> files
     \<Rightarrow> files \<times> (error + page_data list)" where
  "extract_pdf_content rnd faults opened images_dir fs =
     (case opened of
        Inl e \<Rightarrow> (fs, Inl e)
      | Inr doc \<Rightarrow> extract_pages rnd faults images_dir 0 doc fs)"

subsection \<open>\<^verbatim>\<open>main\<close>\<close>

text \<open>
  The collaborators of \<^verbatim>\<open>main\<close>: the PDF library, the operating system, the page
  rasteriser (\<^verbatim>\<open>convert_page_to_image\<close>, whose files live in the \<^verbatim>\<open>_temp\<close> directory and
  are read by nothing else) and the content generator (\<^verbatim>\<open>generate_beamer_frame\<close>, a
  call to a remote service). Each answers with a value or with an exception.
  \<open>write_flushed\<close> is the buffering of the writes to the final document.
\<close>

record env =
  fitz_open :: "string \<Rightarrow> error + page list"
  makedirs :: "string \<Rightarrow> error option"
  io_faults :: "string \<Rightarrow> io_fault"
  listdir :: "string \<Rightarrow> files \<Rightarrow> error + string list"
  write_flushed :: "string \<Rightarrow> nat"
  convert_page_to_image :: "string \<Rightarrow> nat \<Rightarrow> string \<Rightarrow> error + string"
  generate_beamer_frame :: "page_data \<Rightarrow> string \<Rightarrow> error + string option"
  float_rnd :: "real \<Rightarrow> real"

record world =
  files :: files
  stdout :: "string list"

definition print :: "string \<Rightarrow> world \<Rightarrow> world" where
  "print line w = w\<lparr>stdout := stdout w @ [line]\<rparr>"

text \<open>\<^verbatim>\<open>s.split(sep)\<close> for a separator of one character.\<close>

fun py_split :: "char \<Rightarrow> string \<Rightarrow> string list" where
  "py_split sep [] = [[]]"
| "py_split sep (c # cs) =
     (if c = sep then [] # py_split sep cs
      else (case py_split sep cs of
              [] \<Rightarrow> [[c]]
            | piece # pieces \<Rightarrow> (c # piece) # pieces))"

text \<open>\<^verbatim>\<open>pdf_path.split("\\")[-1].split('.')[0]\<close>\<close>

definition file_name_of :: "string \<Rightarrow> string" where
  "file_name_of pdf_path = hd (py_split CHR ''.'' (last (py_split backslash pdf_path)))"

definition beamer_file_of :: "string \<Rightarrow> nat \<Rightarrow> string" where
  "beamer_file_of file_name i =
     file_name @ ''_beamers/'' @ file_name @ ''_page_'' @ py_str i @ ''.tex''"

text \<open>
  The two lines \<^verbatim>\<open>main\<close> prints for a page it has processed (lines 180 and 185), for a
  page whose \<^verbatim>\<open>page_num\<close> is its index \<open>i\<close>.
\<close>

definition page_lines :: "string \<Rightarrow> nat \<Rightarrow> string list" where
  "page_lines file_name i =
     [''Processed page '' @ py_str (i + 1),
      ''LaTeX Beamer file created: '' @ beamer_file_of file_name i]"

text \<open>
  The loop over \<^verbatim>\<open>enumerate(content)\<close>. Pages with \<^verbatim>\<open>i <= 27\<close> are skipped. There is no
  exception handler: an exception of the rasteriser, of the generator or of the write
  leaves the loop, and \<^verbatim>\<open>main\<close>, at once.
\<close>

fun main_loop :: "env \<Rightarrow> string \<Rightarrow> string \<Rightarrow> (nat \<times> page_data) list \<Rightarrow> world \<Rightarrow> world \<times> error option" where
  "main_loop E pdf_path file_name [] w = (w, None)"
| "main_loop E pdf_path file_name ((i, page_data) # rest) w =
     (if i \<le> 27 then main_loop E pdf_path file_name rest w
      else
        (case convert_page_to_image E pdf_path (pd_page_num page_data) (file_name @ ''_temp'') of
           Inl e \<Rightarrow> (w, Some e)
         | Inr base64_img \<Rightarrow>
             (case generate_beamer_frame E page_data base64_img of
                Inl e \<Rightarrow> (w, Some e)
              | Inr frame_code \<Rightarrow>
                  (let w1 = print (''Processed page '' @ py_str (pd_page_num page_data + 1)) w;
                       output_beamer_file = beamer_file_of file_name i
                   in case create_latex_document frame_code output_beamer_file
                             (io_faults E output_beamer_file) (files w1) of
                        (fs, Some e) \<Rightarrow> (w1\<lparr>files := fs\<rparr>, Some e)
                      | (fs, None) \<Rightarrow>
                          main_loop E pdf_path file_name rest
                            (print (''LaTeX Beamer file created: '' @ output_beamer_file)
                               (w1\<lparr>files := fs\<rparr>))))))"

definition main :: "env \<Rightarrow> string \<Rightarrow> world \<Rightarrow> world \<times> error option" where
  "main E pdf_path w =
     (let file_name = file_name_of pdf_path
      in case makedirs E (file_name @ ''_images'') of
           Some e \<Rightarrow> (w, Some e)
         | None \<Rightarrow>
      (case makedirs E (file_name @ ''_temp'') of
           Some e \<Rightarrow> (w, Some e)
         | None \<Rightarrow>
      (case makedirs E (file_name @ ''_beamers'') of
           Some e \<Rightarrow> (w, Some e)
         | None \<Rightarrow>
      (case extract_pdf_content (float_rnd E) (io_faults E) (fitz_open E pdf_path)
              (file_name @ ''_images'') (files w) of
           (fs1, Inl e) \<Rightarrow> (w\<lparr>files := fs1\<rparr>, Some e)
         | (fs1, Inr content) \<Rightarrow>
      (case main_loop E pdf_path file_name (List.enumerate 0 content) (w\<lparr>files := fs1\<rparr>) of
           (w2, Some e) \<Rightarrow> (w2, Some e)
         | (w2, None) \<Rightarrow>
      (let output_beamer_file = file_name @ ''_full.tex''
       in case concat_beamer_files (listdir E (file_name @ ''_beamers'') (files w2))
                 (io_faults E output_beamer_file) (write_flushed E)
                 (file_name @ ''_beamers'') output_beamer_file (files w2) of
            (fs3, Some e) \<Rightarrow> (w2\<lparr>files := fs3\<rparr>, Some e)
          | (fs3, None) \<Rightarrow>
              (print (''Concatenated LaTeX Beamer file created: '' @ output_beamer_file)
                 (w2\<lparr>files := fs3\<rparr>), None)))))))"

subsection \<open>An example run\<close>

text \<open>
  A document of blank pages and collaborators that always answer, except that the
  content generator fails on the page with the given index, if one is given. The
  directory listing names the artifact files that exist, and nothing leaves the write
  buffer of the final document before it is closed.
\<close>

definition blank_page :: page where
  "blank_page = \<lparr>text_blocks = [], images = [], rect_width = 10, rect_height = 7\<rparr>"

definition example_env :: "nat \<Rightarrow> nat option \<Rightarrow> env" where
  "example_env pages failing =
     \<lparr>fitz_open = (\<lambda>pdf_path. Inr (replicate pages blank_page)),
      makedirs = (\<lambda>path. None),
      io_faults = (\<lambda>path. NoFault),
      listdir = (\<lambda>dir fs. Inr (filter (\<lambda>name. fs (dir @ ''/'' @ name) \<noteq> None)
                                (map (\<lambda>i. ''deck_page_'' @ py_str i @ ''.tex'') [0..<pages]))),
      write_flushed = (\<lambda>out. 0),
      convert_page_to_image = (\<lambda>pdf_path page_num output_dir. Inr ''base64''),
      generate_beamer_frame = (\<lambda>page_data base64_img.
         if Some (pd_page_num page_data) = failing then Inl (LibraryError ''quota exceeded'')
         else Inr (Some (''```latex'' @ nl @ ''frame '' @ py_str (pd_page_num page_data) @ nl @ ''```''))),
      float_rnd = id\<rparr>"

definition empty_world :: world where
  "empty_world = \<lparr>files = Map.empty, stdout = []\<rparr>"

section \<open>Properties of decimal numerals\<close>

lemma digit_char_code: "d < 10 \<Longrightarrow> of_char (digit_char d) = 48 + d"
  by (auto simp: digit_char_def less_Suc_eq numeral_eq_Suc)

lemma is_digit_digit_char: "d < 10 \<Longrightarrow> is_digit (digit_char d)"
  by (simp add: is_digit_def digit_char_code)

lemma digit_val_digit_char: "d < 10 \<Longrightarrow> digit_val (digit_char d) = d"
  by (simp add: digit_val_def digit_char_code)

lemma digit_val_less: "is_digit c \<Longrightarrow> digit_val c < 10"
  by (auto simp: is_digit_def digit_val_def)

lemma digit_val_inj: "is_digit c \<Longrightarrow> is_digit d \<Longrightarrow> digit_val c = digit_val d \<Longrightarrow> c = d"
proof -
  assume a: "is_digit c" "is_digit d" "digit_val c = digit_val d"
  then have "(of_char c :: nat) = of_char d"
    unfolding is_digit_def digit_val_def by arith
  then show "c = d" by (simp only: of_char_eq_iff)
qed

lemma digit_val_mono: "is_digit c \<Longrightarrow> is_digit d \<Longrightarrow> digit_val c < digit_val d \<Longrightarrow> c < d"
  by (auto simp: is_digit_def digit_val_def less_char_def)

lemma py_str_digits: "c \<in> set (py_str n) \<Longrightarrow> is_digit c"
proof (induction n arbitrary: c rule: py_str.induct)
  case (1 n)
  show ?case
  proof (cases "n < 10")
    case True
    with "1.prems" show ?thesis by (simp add: py_str.simps [of n] is_digit_digit_char)
  next
    case False
    with "1.prems" "1.IH" show ?thesis
      by (auto simp: py_str.simps [of n] is_digit_digit_char)
  qed
qed

lemma py_str_nonempty: "py_str n \<noteq> []"
  by (subst py_str.simps) simp

lemma py_int_snoc: "py_int (s @ [c]) = 10 * py_int s + digit_val c"
  by (simp add: py_int_def)

lemma py_int_py_str: "py_int (py_str n) = n"
proof (induction n rule: py_str.induct)
  case (1 n)
  show ?case
  proof (cases "n < 10")
    case True
    then show ?thesis by (simp add: py_str.simps [of n] py_int_def digit_val_digit_char)
  next
    case False
    with "1.IH" show ?thesis
      by (simp add: py_str.simps [of n] py_int_snoc digit_val_digit_char)
  qed
qed

lemma py_str_inj: "py_str m = py_str n \<Longrightarrow> m = n"
  by (metis py_int_py_str)

lemma length_py_str_mono: "m \<le> n \<Longrightarrow> length (py_str m) \<le> length (py_str n)"
proof (induction n arbitrary: m rule: py_str.induct)
  case (1 n)
  show ?case
  proof (cases "n < 10")
    case True
    with "1.prems" have "m < 10" by simp
    with True show ?thesis by (simp add: py_str.simps [of n] py_str.simps [of m])
  next
    case False
    show ?thesis
    proof (cases "m < 10")
      case True
      with False show ?thesis by (simp add: py_str.simps [of n] py_str.simps [of m])
    next
      case mf: False
      from "1.prems" have "m div 10 \<le> n div 10" by (rule div_le_mono)
      with "1.IH" False have "length (py_str (m div 10)) \<le> length (py_str (n div 10))" by simp
      with False mf show ?thesis by (simp add: py_str.simps [of n] py_str.simps [of m])
    qed
  qed
qed

lemma py_int_Cons: "py_int (c # s) = digit_val c * 10 ^ length s + py_int s"
proof (induction s arbitrary: c rule: rev_induct)
  case Nil
  then show ?case by (simp add: py_int_def)
next
  case (snoc x xs)
  have "py_int (c # xs @ [x]) = 10 * py_int (c # xs) + digit_val x"
    using py_int_snoc [of "c # xs" x] by simp
  with snoc show ?case by (simp add: py_int_snoc algebra_simps)
qed

lemma py_int_bound: "\<forall>c\<in>set s. is_digit c \<Longrightarrow> py_int s < 10 ^ length s"
proof (induction s)
  case Nil
  then show ?case by (simp add: py_int_def)
next
  case (Cons c s)
  then have "digit_val c \<le> 9" "py_int s < 10 ^ length s"
    using digit_val_less [of c] by auto
  then have "digit_val c * 10 ^ length s + py_int s < 9 * 10 ^ length s + 10 ^ length s"
    by (meson add_le_less_mono mult_le_mono1)
  then show ?case by (simp add: py_int_Cons)
qed

lemma py_int_zeros: "py_int (replicate k CHR ''0'' @ s) = py_int s"
  by (induction k) (simp_all add: py_int_Cons digit_val_def)

lemma digits_less_lex:
  "length xs = length ys \<Longrightarrow> \<forall>c\<in>set xs. is_digit c \<Longrightarrow> \<forall>c\<in>set ys. is_digit c \<Longrightarrow>
   py_int xs < py_int ys \<Longrightarrow> xs < ys"
proof (induction xs ys rule: list_induct2)
  case Nil
  then show ?case by simp
next
  case (Cons x xs y ys)
  have bx: "py_int xs < 10 ^ length xs" and by': "py_int ys < 10 ^ length ys"
    using Cons.prems by (auto intro: py_int_bound)
  have lt: "digit_val x * 10 ^ length xs + py_int xs < digit_val y * 10 ^ length xs + py_int ys"
    using Cons.prems Cons.hyps by (simp add: py_int_Cons)
  show ?case
  proof (cases "digit_val x = digit_val y")
    case True
    then have "x = y" using Cons.prems by (auto intro: digit_val_inj)
    moreover have "xs < ys" using Cons.IH Cons.prems lt True by simp
    ultimately show ?thesis by simp
  next
    case False
    have "digit_val x < digit_val y"
    proof (rule ccontr)
      assume "\<not> digit_val x < digit_val y"
      with False have "digit_val y + 1 \<le> digit_val x" by simp
      then have "(digit_val y + 1) * 10 ^ length xs \<le> digit_val x * 10 ^ length xs"
        by (rule mult_le_mono1)
      with lt by' Cons.hyps show False by (simp add: algebra_simps)
    qed
    then have "x < y" using Cons.prems by (auto intro: digit_val_mono)
    then show ?thesis by simp
  qed
qed

lemma zfill_py_str:
  "zfill w (py_str n) = replicate (w - length (py_str n)) CHR ''0'' @ py_str n"
proof (cases "py_str n")
  case Nil
  then show ?thesis using py_str_nonempty by simp
next
  case (Cons c cs)
  then have "is_digit c" using py_str_digits [of c n] by simp
  then have "c \<noteq> CHR ''+''" "c \<noteq> CHR ''-''" by (auto simp: is_digit_def)
  with Cons show ?thesis by (simp add: zfill_def)
qed

section \<open>Numbered page images\<close>

lemma length_zfill_py_str:
  "length (py_str n) \<le> w \<Longrightarrow> length (zfill w (py_str n)) = w"
  by (simp add: zfill_py_str)

lemma zfill_py_str_digits: "c \<in> set (zfill w (py_str n)) \<Longrightarrow> is_digit c"
  by (auto simp: zfill_py_str is_digit_def dest: py_str_digits)

lemma py_int_zfill_py_str: "py_int (zfill w (py_str n)) = n"
  by (simp add: zfill_py_str py_int_zeros py_int_py_str)

lemma less_append_same_length:
  fixes xs ys :: string
  shows "length xs = length ys \<Longrightarrow> xs < ys \<Longrightarrow> xs @ s < ys @ t"
  by (simp add: list_less_def lexord_sufI)

lemma image_name_less:
  assumes "i < j" and "j < page_count"
  shows "image_name page_count i < image_name page_count j"
proof -
  let ?w = "zfill_width page_count"
  have li: "length (py_str (i + 1)) \<le> ?w" and lj: "length (py_str (j + 1)) \<le> ?w"
    using assms by (simp_all add: zfill_width_def length_py_str_mono)
  have "zfill ?w (py_str (i + 1)) < zfill ?w (py_str (j + 1))"
  proof (rule digits_less_lex)
    show "length (zfill ?w (py_str (i + 1))) = length (zfill ?w (py_str (j + 1)))"
      using li lj by (simp add: length_zfill_py_str)
    show "\<forall>c\<in>set (zfill ?w (py_str (i + 1))). is_digit c"
      by (blast intro: zfill_py_str_digits)
    show "\<forall>c\<in>set (zfill ?w (py_str (j + 1))). is_digit c"
      by (blast intro: zfill_py_str_digits)
    show "py_int (zfill ?w (py_str (i + 1))) < py_int (zfill ?w (py_str (j + 1)))"
      using assms by (simp add: py_int_zfill_py_str)
  qed
  then show ?thesis
    unfolding image_name_def using li lj
    by (intro less_append_same_length) (simp_all add: length_zfill_py_str)
qed

lemma image_names_sorted: "sorted_wrt (<) (image_names page_count)"
  by (auto simp: image_names_def sorted_wrt_iff_nth_less intro: image_name_less)

text \<open>
  Claim C10. For a document of \<open>page_count\<close> pages, \<^verbatim>\<open>convert_pdf_to_numbered_images\<close>
  writes one image per page. The image of the page with index \<open>i\<close> is named by the
  number \<open>i + 1\<close>, padded with zeros on the left to the number of digits of
  \<open>page_count\<close>, followed by \<^verbatim>\<open>.png\<close>; all names have the same length, the name of an
  earlier page is strictly smaller, in the lexicographic order of strings, than the
  name of a later page, and so the names are strictly ascending in page order.
\<close>

theorem image_names_ordered:
  "length (image_names page_count) = page_count
   \<and> (\<forall>i<page_count.
         image_names page_count ! i
           = replicate (length (py_str page_count) - length (py_str (i + 1))) CHR ''0''
               @ py_str (i + 1) @ ''.png''
         \<and> length (image_names page_count ! i) = length (py_str page_count) + 4)
   \<and> (\<forall>i j. i < j \<and> j < page_count
         \<longrightarrow> image_names page_count ! i < image_names page_count ! j)
   \<and> sorted_wrt (<) (image_names page_count)"
proof -
  let ?w = "length (py_str page_count)"
  have len: "length (image_names page_count) = page_count"
    by (simp add: image_names_def)
  have nth: "image_names page_count ! i = image_name page_count i" if "i < page_count" for i
    using that by (simp add: image_names_def)
  have form: "\<forall>i<page_count.
         image_names page_count ! i
           = replicate (?w - length (py_str (i + 1))) CHR ''0'' @ py_str (i + 1) @ ''.png''
         \<and> length (image_names page_count ! i) = ?w + 4"
  proof (intro allI impI)
    fix i assume i: "i < page_count"
    then have li: "length (py_str (i + 1)) \<le> ?w"
      by (simp add: length_py_str_mono)
    have "image_name page_count i
            = replicate (?w - length (py_str (i + 1))) CHR ''0'' @ py_str (i + 1) @ ''.png''"
      by (simp add: image_name_def zfill_width_def zfill_py_str)
    moreover have "length (image_name page_count i) = ?w + 4"
      using li by (simp add: image_name_def zfill_width_def length_zfill_py_str)
    ultimately show "image_names page_count ! i
           = replicate (?w - length (py_str (i + 1))) CHR ''0'' @ py_str (i + 1) @ ''.png''
         \<and> length (image_names page_count ! i) = ?w + 4"
      using nth [OF i] by simp
  qed
  have less: "\<forall>i j. i < j \<and> j < page_count
         \<longrightarrow> image_names page_count ! i < image_names page_count ! j"
  proof (intro allI impI)
    fix i j assume a: "i < j \<and> j < page_count"
    then have "image_name page_count i < image_name page_count j"
      by (intro image_name_less) simp_all
    with a show "image_names page_count ! i < image_names page_count ! j"
      using nth [of i] nth [of j] by simp
  qed
  from len form less image_names_sorted show ?thesis by blast
qed

theorem image_names_ordered_witness:
  "image_names 1 = [''1.png'']
   \<and> length (image_names 12) = 12
   \<and> image_names 12 ! 8 = ''09.png'' \<and> image_names 12 ! 9 = ''10.png''
   \<and> image_names 12 ! 11 = ''12.png''
   \<and> image_names 12 ! 8 < image_names 12 ! 9"
proof -
  have one: "image_names 1 = [''1.png'']" by code_simp
  have e: "replicate (length (py_str 12) - length (py_str (8 + 1))) CHR ''0''
             @ py_str (8 + 1) @ ''.png'' = ''09.png''"
    "replicate (length (py_str 12) - length (py_str (9 + 1))) CHR ''0''
             @ py_str (9 + 1) @ ''.png'' = ''10.png''"
    "replicate (length (py_str 12) - length (py_str (11 + 1))) CHR ''0''
             @ py_str (11 + 1) @ ''.png'' = ''12.png''"
    by code_simp+
  note t = image_names_ordered [of 12]
  from t have l: "length (image_names 12) = 12" by blast
  from t have f: "\<forall>i<12. image_names 12 ! i
           = replicate (length (py_str 12) - length (py_str (i + 1))) CHR ''0''
               @ py_str (i + 1) @ ''.png''"
    by blast
  from t have o: "\<forall>i j. i < j \<and> j < 12 \<longrightarrow> image_names 12 ! i < image_names 12 ! j"
    by blast
  have n8: "image_names 12 ! 8 = ''09.png''" using f [rule_format, of 8] e(1) by simp
  have n9: "image_names 12 ! 9 = ''10.png''" using f [rule_format, of 9] e(2) by simp
  have n11: "image_names 12 ! 11 = ''12.png''" using f [rule_format, of 11] e(3) by simp
  have lt: "image_names 12 ! 8 < image_names 12 ! 9" using o [rule_format, of 8 9] by simp
  from one l n8 n9 n11 lt show ?thesis by blast
qed

section \<open>Removing the fence delimiters\<close>

lemma re_sub_del_subseq: "subseq (re_sub_del pat s) s"
proof (induction pat s rule: re_sub_del.induct)
  case (1 pat)
  then show ?case by simp
next
  case (2 pat c cs)
  show ?case
  proof (cases "pat \<noteq> [] \<and> prefix pat (c # cs)")
    case True
    with "2.IH" have "subseq (re_sub_del pat (drop (length pat) (c # cs))) (drop (length pat) (c # cs))"
      by simp
    moreover have "subseq (drop (length pat) (c # cs)) (c # cs)"
      by (rule sublist_imp_subseq) (rule sublist_drop)
    ultimately have "subseq (re_sub_del pat (drop (length pat) (c # cs))) (c # cs)"
      by (rule subseq_order.trans)
    with True show ?thesis by simp
  next
    case False
    with "2.IH" show ?thesis by auto
  qed
qed

lemma re_sub_del_absent: "\<not> sublist pat s \<Longrightarrow> re_sub_del pat s = s"
proof (induction s)
  case Nil
  then show ?case by simp
next
  case (Cons c cs)
  then have "\<not> prefix pat (c # cs)" "\<not> sublist pat cs"
    by (simp_all add: sublist_Cons_right)
  with Cons.IH show ?case by simp
qed

lemma re_sub_del_fence_aux:
  "\<not> sublist ''```'' (re_sub_del ''```'' s)
   \<and> (prefix ''``'' (re_sub_del ''```'' s) \<longrightarrow> prefix ''``'' s)
   \<and> (prefix ''`'' (re_sub_del ''```'' s) \<longrightarrow> prefix ''`'' s)"
proof (induction s rule: measure_induct_rule [where f = length])
  case (less s)
  show ?case
  proof (cases s)
    case Nil
    then show ?thesis by simp
  next
    case (Cons c cs)
    show ?thesis
    proof (cases "prefix ''```'' s")
      case True
      then obtain r where r: "s = ''```'' @ r" by (auto simp: prefix_def)
      then have "length r < length s" by simp
      from less.IH [OF this] have "\<not> sublist ''```'' (re_sub_del ''```'' r)" by blast
      moreover have "re_sub_del ''```'' s = re_sub_del ''```'' r"
        using r by simp
      moreover have "prefix ''``'' s" "prefix ''`'' s" using r by simp_all
      ultimately show ?thesis by simp
    next
      case False
      have "length cs < length s" using Cons by simp
      from less.IH [OF this] have ih:
        "\<not> sublist ''```'' (re_sub_del ''```'' cs)"
        "prefix ''``'' (re_sub_del ''```'' cs) \<longrightarrow> prefix ''``'' cs"
        "prefix ''`'' (re_sub_del ''```'' cs) \<longrightarrow> prefix ''`'' cs"
        by blast+
      have eq: "re_sub_del ''```'' s = c # re_sub_del ''```'' cs"
        using False Cons by (metis re_sub_del.simps(2))
      have "\<not> prefix ''```'' (c # re_sub_del ''```'' cs)"
        using False ih(2) Cons by auto
      with ih eq Cons show ?thesis by (auto simp: sublist_Cons_right)
    qed
  qed
qed

lemma sublist_fence_latex: "sublist ''```latex'' s \<Longrightarrow> sublist ''```'' s"
proof -
  assume "sublist ''```latex'' s"
  then obtain ps ss where "s = ps @ ''```latex'' @ ss" by (auto simp: sublist_def)
  then have "s = ps @ ''```'' @ (''latex'' @ ss)" by simp
  then show ?thesis by (simp only: sublist_appendI)
qed

lemma clean_frame_no_fence: "\<not> sublist ''```'' (clean_frame frame)"
  by (simp add: clean_frame_def re_sub_del_fence_aux)

lemma clean_frame_subseq: "subseq (clean_frame frame) (str_of_frame frame)"
  unfolding clean_frame_def
  by (rule subseq_order.trans [OF re_sub_del_subseq re_sub_del_subseq])

lemma clean_frame_fence_free:
  assumes "\<not> sublist ''```'' (str_of_frame frame)"
  shows "clean_frame frame = str_of_frame frame"
proof -
  from assms have "\<not> sublist ''```latex'' (str_of_frame frame)"
    using sublist_fence_latex by blast
  with assms show ?thesis by (simp add: clean_frame_def re_sub_del_absent)
qed

lemma fence_latex_no_straddle:
  assumes "prefix ''```latex'' (u @ ''```latex'' @ v)" and "u \<noteq> []"
  shows "prefix ''```latex'' u"
  using assms
  by (auto simp: prefix_append Cons_eq_append_conv)

lemma re_sub_del_fence_latex_append:
  "re_sub_del ''```latex'' (u @ ''```latex'' @ v)
     = re_sub_del ''```latex'' u @ re_sub_del ''```latex'' v"
proof (induction u rule: measure_induct_rule [where f = length])
  case (less u)
  show ?case
  proof (cases u)
    case Nil
    then show ?thesis by simp
  next
    case (Cons c cs)
    show ?thesis
    proof (cases "prefix ''```latex'' u")
      case True
      then obtain r where r: "u = ''```latex'' @ r" by (auto simp: prefix_def)
      then have "length r < length u" by simp
      from less.IH [OF this] show ?thesis using r by simp
    next
      case False
      with fence_latex_no_straddle [of u v] Cons
      have n: "\<not> prefix ''```latex'' (u @ ''```latex'' @ v)" by blast
      have e1: "re_sub_del ''```latex'' u = c # re_sub_del ''```latex'' cs"
        using False Cons by (metis re_sub_del.simps(2))
      have e2: "re_sub_del ''```latex'' (u @ ''```latex'' @ v)
                  = c # re_sub_del ''```latex'' (cs @ ''```latex'' @ v)"
        using n Cons by (metis re_sub_del.simps(2) append_Cons)
      have "length cs < length u" using Cons by simp
      from less.IH [OF this] e1 e2 show ?thesis by simp
    qed
  qed
qed

section \<open>The artifact writer\<close>

text \<open>
  Claim C9. For a generated markup string and a write that goes through,
  \<^verbatim>\<open>create_latex_document\<close> stores, under the given file name and nowhere else, the
  cleaned markup followed by a newline. The cleaned markup is the input after
  \<^verbatim>\<open>re.sub\<close> has dropped the occurrences of the opening fence with its language tag
  and then the occurrences of the bare fence: each occurrence of the tagged fence is dropped and the text on
  its two sides is treated on its own; no bare fence (hence no tagged fence) is left;
  nothing is added or reordered; and the markup is unchanged exactly when it has no fence.
\<close>

theorem create_latex_document_strips_fences:
  "create_latex_document (Some markup) output_file NoFault fs
     = (fs(output_file \<mapsto> clean_frame (Some markup) @ nl), None)
   \<and> clean_frame (Some markup) = re_sub_del ''```'' (re_sub_del ''```latex'' markup)
   \<and> re_sub_del ''```latex'' (u @ ''```latex'' @ v)
       = re_sub_del ''```latex'' u @ re_sub_del ''```latex'' v
   \<and> \<not> sublist ''```'' (clean_frame (Some markup))
   \<and> \<not> sublist ''```latex'' (clean_frame (Some markup))
   \<and> subseq (clean_frame (Some markup)) markup
   \<and> (clean_frame (Some markup) = markup \<longleftrightarrow> \<not> sublist ''```'' markup)"
proof -
  have a: "create_latex_document (Some markup) output_file NoFault fs
             = (fs(output_file \<mapsto> clean_frame (Some markup) @ nl), None)"
    by (simp add: create_latex_document_def write_file_def)
  have b: "clean_frame (Some markup) = re_sub_del ''```'' (re_sub_del ''```latex'' markup)"
    by (simp add: clean_frame_def str_of_frame_def)
  have c: "\<not> sublist ''```'' (clean_frame (Some markup))"
    by (rule clean_frame_no_fence)
  then have d: "\<not> sublist ''```latex'' (clean_frame (Some markup))"
    using sublist_fence_latex by blast
  have e: "subseq (clean_frame (Some markup)) markup"
    using clean_frame_subseq [of "Some markup"] by (simp add: str_of_frame_def)
  have f: "clean_frame (Some markup) = markup \<longleftrightarrow> \<not> sublist ''```'' markup"
    using c clean_frame_fence_free [of "Some markup"] by (auto simp: str_of_frame_def)
  from a b c d e f re_sub_del_fence_latex_append [of u v] show ?thesis by blast
qed

theorem create_latex_document_strips_fences_witness:
  "fst (create_latex_document (Some (''```latex'' @ nl @ ''x````y'' @ nl @ ''```''))
          ''deck_beamers/deck_page_28.tex'' NoFault Map.empty) ''deck_beamers/deck_page_28.tex''
     = Some (nl @ ''x`y'' @ nl @ nl)"
proof -
  have "clean_frame (Some (''```latex'' @ nl @ ''x````y'' @ nl @ ''```'')) = nl @ ''x`y'' @ nl"
    by (simp add: clean_frame_def str_of_frame_def nl_def)
  with create_latex_document_strips_fences
         [of "''```latex'' @ nl @ ''x````y'' @ nl @ ''```''" "''deck_beamers/deck_page_28.tex''"
             Map.empty]
  show ?thesis by simp
qed

text \<open>
  Claim C5, as stated, fails: the file is opened at its final path and written in
  place. When the write stops after two characters, the artifact file exists and holds
  neither the full cleaned markup nor nothing.
\<close>

theorem create_latex_document_partial_counterexample:
  "fst (create_latex_document (Some ''abc'') ''deck_beamers/deck_page_28.tex'' (WriteFails 2)
          Map.empty) ''deck_beamers/deck_page_28.tex'' = Some ''ab''
   \<and> Some ''ab'' \<noteq> Some (clean_frame (Some ''abc'') @ nl)
   \<and> Some ''ab'' \<noteq> (None :: string option)"
  by (simp add: create_latex_document_def write_file_def clean_frame_def str_of_frame_def nl_def)

text \<open>
  Claim C5, amended. \<^verbatim>\<open>create_latex_document\<close> writes the artifact file in place and
  touches no other path. When the write goes through, the file holds the full cleaned
  markup and a newline. When the open fails, the files are as before. When the write is
  cut short, the file holds the part of the text that was written.
\<close>

theorem create_latex_document_in_place:
  assumes "create_latex_document frame output_file fault fs = (fs', err)"
  shows "(fault = NoFault \<longrightarrow>
            err = None \<and> fs' output_file = Some (clean_frame frame @ nl))
       \<and> (fault = OpenFails \<longrightarrow> err = Some OSError \<and> fs' = fs)
       \<and> (\<forall>n. fault = WriteFails n \<longrightarrow>
            err = Some OSError \<and> fs' output_file = Some (take n (clean_frame frame @ nl)))
       \<and> (\<forall>path. path \<noteq> output_file \<longrightarrow> fs' path = fs path)"
  using assms
  by (cases fault) (auto simp: create_latex_document_def write_file_def)

theorem create_latex_document_in_place_witness:
  "create_latex_document (Some ''abc'') ''p_page_1.tex'' NoFault Map.empty
     = (Map.empty(''p_page_1.tex'' \<mapsto> ''abc'' @ nl), None)
   \<and> create_latex_document (Some ''abc'') ''p_page_1.tex'' OpenFails Map.empty
     = (Map.empty, Some OSError)
   \<and> create_latex_document (Some ''abc'') ''p_page_1.tex'' (WriteFails 2) Map.empty
     = (Map.empty(''p_page_1.tex'' \<mapsto> ''ab''), Some OSError)
   \<and> (Map.empty(''p_page_1.tex'' \<mapsto> ''abc'' @ nl)) ''p_page_1.tex''
     = Some (clean_frame (Some ''abc'') @ nl)
   \<and> (Map.empty(''p_page_1.tex'' \<mapsto> ''ab'')) ''p_page_1.tex''
     = Some (take 2 (clean_frame (Some ''abc'') @ nl))
   \<and> (Map.empty(''p_page_1.tex'' \<mapsto> ''abc'' @ nl)) ''q'' = (Map.empty :: files) ''q''"
proof -
  have r: "create_latex_document (Some ''abc'') ''p_page_1.tex'' NoFault Map.empty
             = (Map.empty(''p_page_1.tex'' \<mapsto> ''abc'' @ nl), None)"
    by (simp add: create_latex_document_def write_file_def clean_frame_def str_of_frame_def)
  have s: "create_latex_document (Some ''abc'') ''p_page_1.tex'' OpenFails Map.empty
             = (Map.empty, Some OSError)"
    by (simp add: create_latex_document_def write_file_def)
  have t: "create_latex_document (Some ''abc'') ''p_page_1.tex'' (WriteFails 2) Map.empty
             = (Map.empty(''p_page_1.tex'' \<mapsto> ''ab''), Some OSError)"
    by (simp add: create_latex_document_def write_file_def clean_frame_def str_of_frame_def)
  have q: "''q'' \<noteq> ''p_page_1.tex''" by simp
  from create_latex_document_in_place [OF r] create_latex_document_in_place [OF s]
    create_latex_document_in_place [OF t] q r s t
  show ?thesis by simp
qed

section \<open>The sequence assembler\<close>

lemma page_key_Inl: "page_key x = Inl e \<Longrightarrow> e = AttributeError"
  by (auto simp: page_key_def split: option.splits)

lemma keyed_Inr:
  "keyed xs = Inr kxs \<Longrightarrow>
   map snd kxs = xs \<and> (\<forall>kx\<in>set kxs. page_key (snd kx) = Inr (fst kx))"
  by (induction xs arbitrary: kxs) (auto split: sum.splits)

lemma keyed_Inl_iff: "(\<exists>e. keyed xs = Inl e) \<longleftrightarrow> (\<exists>x\<in>set xs. \<exists>e. page_key x = Inl e)"
  by (induction xs) (auto split: sum.splits)

lemma keyed_Inl: "keyed xs = Inl e \<Longrightarrow> e = AttributeError"
  by (induction xs) (auto split: sum.splits dest: page_key_Inl)

lemma keyed_eq:
  "\<forall>x\<in>set xs. page_key x = Inr (num x) \<Longrightarrow> keyed xs = Inr (map (\<lambda>x. (num x, x)) xs)"
  by (induction xs) auto

lemma keyed_perm:
  assumes "mset xs' = mset xs" and "keyed xs = Inr kxs"
  shows "\<exists>kxs'. keyed xs' = Inr kxs' \<and> mset kxs' = mset kxs"
proof -
  define num where "num x = (case page_key x of Inr k \<Rightarrow> k | Inl e \<Rightarrow> 0)" for x
  have all: "\<forall>x\<in>set xs. page_key x = Inr (num x)"
  proof
    fix x assume "x \<in> set xs"
    with keyed_Inl_iff [of xs] assms(2) obtain k where "page_key x = Inr k"
      by (cases "page_key x") auto
    then show "page_key x = Inr (num x)" by (simp add: num_def)
  qed
  moreover have "set xs' = set xs" using assms(1) by (rule mset_eq_setD)
  ultimately have "keyed xs' = Inr (map (\<lambda>x. (num x, x)) xs')"
    by (intro keyed_eq) simp
  moreover have "keyed xs = Inr (map (\<lambda>x. (num x, x)) xs)"
    using all by (rule keyed_eq)
  ultimately show ?thesis using assms by (metis mset_map sum.inject(2))
qed

lemma keyed_keys: "keyed xs = Inr kxs \<Longrightarrow> map page_key xs = map Inr (map fst kxs)"
  by (induction xs arbitrary: kxs) (auto split: sum.splits)

lemma keyed_distinct:
  assumes "keyed xs = Inr kxs"
  shows "distinct (map fst kxs) \<longleftrightarrow> distinct (map page_key xs)"
proof -
  have "distinct (map Inr (map fst kxs) :: (error + nat) list) \<longleftrightarrow> distinct (map fst kxs)"
    by (subst distinct_map) (simp add: inj_on_def)
  then show ?thesis by (simp only: keyed_keys [OF assms])
qed

lemma sort_key_perm_distinct:
  assumes "mset xs' = mset xs" and "distinct (map f xs)"
  shows "sort_key f xs' = sort_key f xs"
proof (rule sort_key_inj_key_eq)
  show "mset xs' = mset (sort_key f xs)" using assms(1) by simp
  have "inj_on f (set xs)" using assms(2) by (simp add: distinct_map)
  moreover have "set xs' = set xs" using assms(1) by (rule mset_eq_setD)
  ultimately show "inj_on f (set xs')" by simp
  show "sorted (map f (sort_key f xs))" by (rule sorted_sort_key)
qed

lemma sorted_by_page_perm:
  assumes "mset xs' = mset xs" and "distinct (map page_key xs)"
  shows "sorted_by_page xs' = sorted_by_page xs"
proof (cases "keyed xs")
  case (Inl e)
  then have "\<exists>x\<in>set xs. \<exists>e. page_key x = Inl e" using keyed_Inl_iff by blast
  moreover have "set xs' = set xs" using assms(1) by (rule mset_eq_setD)
  ultimately obtain e' where "keyed xs' = Inl e'" using keyed_Inl_iff [of xs'] by auto
  with Inl keyed_Inl show ?thesis by (auto simp: sorted_by_page_def)
next
  case (Inr kxs)
  with keyed_perm [OF assms(1)] obtain kxs' where k': "keyed xs' = Inr kxs'" "mset kxs' = mset kxs"
    by blast
  have "distinct (map fst kxs)" using keyed_distinct [OF Inr] assms(2) by simp
  with k'(2) have "sort_key fst kxs' = sort_key fst kxs" by (rule sort_key_perm_distinct)
  with Inr k'(1) show ?thesis by (simp add: sorted_by_page_def)
qed

lemma beamer_paths_perm:
  "mset names' = mset names \<Longrightarrow> mset (beamer_paths d names') = mset (beamer_paths d names)"
proof -
  assume "mset names' = mset names"
  then have "filter_mset (suffix ''.tex'') (mset names') = filter_mset (suffix ''.tex'') (mset names)"
    by simp
  then have "mset (filter (suffix ''.tex'') names') = mset (filter (suffix ''.tex'') names)"
    by (simp only: mset_filter)
  then have "image_mset (path_join d) (mset (filter (suffix ''.tex'') names'))
               = image_mset (path_join d) (mset (filter (suffix ''.tex'') names))"
    by simp
  then show ?thesis by (simp only: beamer_paths_def mset_map)
qed

lemma read_files_all:
  "\<forall>p\<in>set ps. fs p = Some (content p) \<Longrightarrow> output_file \<notin> set ps \<Longrightarrow>
   read_files fs output_file flushed ps out
     = (out @ concat (map (\<lambda>p. universal_newlines (content p) @ nl) ps), None)"
  by (induction ps arbitrary: out) auto

lemma match_page_here_Some:
  assumes "match_page_here s = Some ds"
  shows "\<exists>rest. s = ''_page_'' @ ds @ ''.tex'' @ rest \<and> (\<forall>c\<in>set ds. is_digit c)"
proof -
  from assms have p: "prefix ''_page_'' s"
    by (auto simp: match_page_here_def split: if_splits)
  then obtain r where r: "s = ''_page_'' @ r" by (auto simp: prefix_def)
  then have d: "drop 6 s = r" by simp
  from assms p d have ds: "ds = takeWhile is_digit r" and t: "prefix ''.tex'' (dropWhile is_digit r)"
    by (auto simp: match_page_here_def Let_def split: if_splits)
  from t obtain rest where "dropWhile is_digit r = ''.tex'' @ rest" by (auto simp: prefix_def)
  with ds have "r = ds @ ''.tex'' @ rest"
    using takeWhile_dropWhile_id [of is_digit r] by simp
  moreover have "\<forall>c\<in>set ds. is_digit c" using ds by (auto dest: set_takeWhileD)
  ultimately show ?thesis using r by simp
qed

lemma no_match_in_dir:
  assumes "CHR ''.'' \<notin> set d" and "d = [] \<or> last d = CHR ''/''"
  shows "re_search_page (d @ f) = re_search_page f"
  using assms
proof (induction d)
  case Nil
  then show ?case by simp
next
  case (Cons c r)
  have l: "last (c # r) = CHR ''/''" using Cons.prems by simp
  have "match_page_here ((c # r) @ f) = None"
  proof (rule ccontr)
    assume "match_page_here ((c # r) @ f) \<noteq> None"
    then obtain ds where "match_page_here ((c # r) @ f) = Some ds" by auto
    from match_page_here_Some [OF this] obtain rest where
      eq0: "(c # r) @ f = ''_page_'' @ ds @ ''.tex'' @ rest" and dg: "\<forall>c\<in>set ds. is_digit c"
      by auto
    define m where "m = ''_page_'' @ ds"
    define t where "t = ''.tex'' @ rest"
    have eq: "(c # r) @ f = m @ t" using eq0 by (simp add: m_def t_def)
    have ns: "CHR ''/'' \<notin> set m"
      using dg by (auto simp: is_digit_def m_def)
    have sl: "CHR ''/'' \<in> set (c # r)" using l by (metis last_in_set list.distinct(1))
    from eq obtain us where
      "(c # r = m @ us \<and> us @ f = t) \<or> ((c # r) @ us = m \<and> f = us @ t)"
      using append_eq_append_conv2 [of "c # r" f m t] by blast
    then show False
    proof
      assume a: "c # r = m @ us \<and> us @ f = t"
      show False
      proof (cases us)
        case Nil
        with a have "c # r = m" by simp
        with sl ns show False by simp
      next
        case (Cons u us')
        with a have "u = CHR ''.''" by (simp add: t_def)
        with a Cons have "CHR ''.'' \<in> set (c # r)" by simp
        with Cons.prems show False by blast
      qed
    next
      assume a: "(c # r) @ us = m \<and> f = us @ t"
      from sl have "CHR ''/'' \<in> set ((c # r) @ us)" by auto
      with a ns show False by simp
    qed
  qed
  moreover have "re_search_page (r @ f) = re_search_page f"
  proof (rule Cons.IH)
    show "CHR ''.'' \<notin> set r" using Cons.prems by simp
    show "r = [] \<or> last r = CHR ''/''" using l by (cases r) auto
  qed
  ultimately show ?case by simp
qed

lemma re_search_page_path_join:
  assumes "CHR ''.'' \<notin> set output_dir" and "CHR ''/'' \<notin> set f"
  shows "re_search_page (path_join output_dir f) = re_search_page f"
proof -
  have np: "\<not> prefix ''/'' f" using assms(2) by (cases f) auto
  show ?thesis
  proof (cases "output_dir = [] \<or> suffix ''/'' output_dir")
    case True
    then have "output_dir = [] \<or> last output_dir = CHR ''/''"
      by (auto simp: suffix_def)
    from no_match_in_dir [OF assms(1) this] True np show ?thesis
      by (simp add: path_join_def)
  next
    case False
    have "re_search_page ((output_dir @ ''/'') @ f) = re_search_page f"
      by (rule no_match_in_dir) (use assms(1) in simp_all)
    with False np show ?thesis by (simp add: path_join_def)
  qed
qed

lemma sorted_by_page_unmatched:
  assumes "x \<in> set xs" and "re_search_page x = None"
  shows "sorted_by_page xs = Inl AttributeError"
proof -
  from assms(2) have "page_key x = Inl AttributeError"
    by (simp add: page_key_def)
  with assms(1) have "\<exists>x\<in>set xs. \<exists>e. page_key x = Inl e"
    by blast
  then obtain e where "keyed xs = Inl e" using keyed_Inl_iff by blast
  with keyed_Inl show ?thesis by (auto simp: sorted_by_page_def)
qed

text \<open>
  Claim C6, as stated, fails: a file with the extension \<^verbatim>\<open>.tex\<close> whose name has no page
  number makes \<^verbatim>\<open>concat_beamer_files\<close> raise \<open>AttributeError\<close>, not \<open>AssemblyError\<close>.
\<close>

theorem concat_beamer_files_unmatched_counterexample:
  "concat_beamer_files (Inr [''deck_page_1.tex'', ''notes.tex'']) NoFault (\<lambda>out. 0)
     ''deck_beamers'' ''deck_full.tex'' Map.empty = (Map.empty, Some AttributeError)
   \<and> Some AttributeError \<noteq> Some AssemblyError"
  by (simp add: concat_beamer_files_def beamer_paths_def path_join_def sorted_by_page_def
        page_key_def match_page_here_def is_digit_def suffix_def)

text \<open>
  Claim C6, amended. If the directory lists a name that ends in \<^verbatim>\<open>.tex\<close> and the pattern
  matches nowhere in its path (for a directory path without a dot: nowhere in the name),
  \<^verbatim>\<open>concat_beamer_files\<close> raises \<open>AttributeError\<close>. The file is not skipped, and since
  the list is sorted before the output file is opened, no file is written.
\<close>

theorem concat_beamer_files_unmatched:
  assumes "f \<in> set names" and "suffix ''.tex'' f"
    and "re_search_page (path_join output_dir f) = None
         \<or> (re_search_page f = None \<and> CHR ''.'' \<notin> set output_dir \<and> CHR ''/'' \<notin> set f)"
  shows "concat_beamer_files (Inr names) fault flushed output_dir output_file fs
           = (fs, Some AttributeError)"
proof -
  from assms(3) have "re_search_page (path_join output_dir f) = None"
    using re_search_page_path_join [of output_dir f] by auto
  moreover have "path_join output_dir f \<in> set (beamer_paths output_dir names)"
    using assms(1,2) by (simp add: beamer_paths_def)
  ultimately have "sorted_by_page (beamer_paths output_dir names) = Inl AttributeError"
    by (rule sorted_by_page_unmatched [rotated])
  then show ?thesis by (simp add: concat_beamer_files_def)
qed

theorem concat_beamer_files_unmatched_witness:
  "''notes.tex'' \<in> set [''deck_page_1.tex'', ''notes.tex''] \<and> suffix ''.tex'' ''notes.tex''
   \<and> re_search_page (path_join ''deck_beamers'' ''notes.tex'') = None
   \<and> re_search_page ''notes.tex'' = None
   \<and> CHR ''.'' \<notin> set ''deck_beamers'' \<and> CHR ''/'' \<notin> set ''notes.tex''
   \<and> concat_beamer_files (Inr [''deck_page_1.tex'', ''notes.tex'']) (WriteFails 3) (\<lambda>out. 0)
        ''deck_beamers'' ''deck_full.tex'' Map.empty = (Map.empty, Some AttributeError)"
proof -
  have a: "''notes.tex'' \<in> set [''deck_page_1.tex'', ''notes.tex'']" by simp
  have b: "suffix ''.tex'' ''notes.tex''" by (simp add: suffix_def)
  have c: "re_search_page (path_join ''deck_beamers'' ''notes.tex'') = None"
    by (simp add: path_join_def match_page_here_def suffix_def)
  have d: "re_search_page ''notes.tex'' = None \<and> CHR ''.'' \<notin> set ''deck_beamers''
             \<and> CHR ''/'' \<notin> set ''notes.tex''"
    by (simp add: match_page_here_def)
  from concat_beamer_files_unmatched [OF a b disjI1 [OF c]] a b c d show ?thesis by simp
qed

text \<open>
  Claim C1, as stated, fails: two artifact files with the same page number are written
  in the order of the directory listing, so the output depends on that order.
\<close>

theorem concat_beamer_files_order_counterexample:
  "fst (concat_beamer_files (Inr [''a_page_1.tex'', ''b_page_1.tex'']) NoFault (\<lambda>out. 0)
          ''d'' ''full.tex''
          [''d/a_page_1.tex'' \<mapsto> ''A'', ''d/b_page_1.tex'' \<mapsto> ''B'']) ''full.tex''
     = Some (preamble @ nl @ ''A'' @ nl @ ''B'' @ nl @ postamble @ nl)
   \<and> fst (concat_beamer_files (Inr [''b_page_1.tex'', ''a_page_1.tex'']) NoFault (\<lambda>out. 0)
          ''d'' ''full.tex''
          [''d/a_page_1.tex'' \<mapsto> ''A'', ''d/b_page_1.tex'' \<mapsto> ''B'']) ''full.tex''
     = Some (preamble @ nl @ ''B'' @ nl @ ''A'' @ nl @ postamble @ nl)
   \<and> preamble @ nl @ ''A'' @ nl @ ''B'' @ nl @ postamble @ nl
     \<noteq> preamble @ nl @ ''B'' @ nl @ ''A'' @ nl @ postamble @ nl"
  by (simp add: concat_beamer_files_def beamer_paths_def path_join_def sorted_by_page_def
        page_key_def match_page_here_def is_digit_def suffix_def write_file_def
        py_int_def digit_val_def)

text \<open>
  Claim C1, amended. Let every listed name that ends in \<^verbatim>\<open>.tex\<close> have a page number
  in its path, and let these page numbers be pairwise distinct. Then the result of
  \<^verbatim>\<open>concat_beamer_files\<close> is the same for every permutation of the directory listing,
  and, when the files can be read and the output file is not one of them, the output
  file holds the preamble, the contents of the files as read in text mode (a carriage
  return, alone or before a line feed, read as a line feed) in strictly ascending order
  of their page numbers, each followed by a newline, and the postamble.
\<close>

theorem concat_beamer_files_sorted:
  assumes "keyed (beamer_paths output_dir names) = Inr kxs"
    and "distinct (map fst kxs)"
    and "mset names' = mset names"
  shows "concat_beamer_files (Inr names') fault flushed output_dir output_file fs
           = concat_beamer_files (Inr names) fault flushed output_dir output_file fs
       \<and> (\<forall>kx\<in>set kxs. page_key (snd kx) = Inr (fst kx))
       \<and> ((\<forall>p\<in>set (beamer_paths output_dir names). fs p = Some (content p))
            \<and> output_file \<notin> set (beamer_paths output_dir names) \<longrightarrow>
          (\<exists>skxs. mset skxs = mset kxs \<and> sorted_wrt (<) (map fst skxs)
            \<and> concat_beamer_files (Inr names) NoFault flushed output_dir output_file fs
                = (fs(output_file \<mapsto>
                     preamble @ nl
                       @ concat (map (\<lambda>kx. universal_newlines (content (snd kx)) @ nl) skxs)
                       @ postamble @ nl), None)))"
proof -
  let ?paths = "beamer_paths output_dir names"
  let ?skxs = "sort_key fst kxs"
  have dk: "distinct (map page_key ?paths)"
    using keyed_distinct [OF assms(1)] assms(2) by simp
  have "sorted_by_page (beamer_paths output_dir names') = sorted_by_page ?paths"
    using beamer_paths_perm [OF assms(3)] dk by (rule sorted_by_page_perm)
  then have inv: "concat_beamer_files (Inr names') fault flushed output_dir output_file fs
           = concat_beamer_files (Inr names) fault flushed output_dir output_file fs"
    by (simp add: concat_beamer_files_def)
  have keys: "\<forall>kx\<in>set kxs. page_key (snd kx) = Inr (fst kx)"
    using keyed_Inr [OF assms(1)] by blast
  have m: "mset ?skxs = mset kxs" by simp
  have "mset (map fst ?skxs) = mset (map fst kxs)" by simp
  then have "distinct (map fst ?skxs)"
    using assms(2) by (metis mset_eq_imp_distinct_iff)
  moreover have "sorted (map fst ?skxs)" by (rule sorted_sort_key)
  ultimately have st: "sorted_wrt (<) (map fst ?skxs)"
    by (simp add: strict_sorted_iff)
  have sp: "sorted_by_page ?paths = Inr (map snd ?skxs)"
    using assms(1) by (simp add: sorted_by_page_def)
  have sets: "set (map snd ?skxs) = set ?paths"
    using keyed_Inr [OF assms(1)] by (metis set_map set_sort)
  have out: "(\<forall>p\<in>set ?paths. fs p = Some (content p)) \<and> output_file \<notin> set ?paths \<longrightarrow>
          (\<exists>skxs. mset skxs = mset kxs \<and> sorted_wrt (<) (map fst skxs)
            \<and> concat_beamer_files (Inr names) NoFault flushed output_dir output_file fs
                = (fs(output_file \<mapsto>
                     preamble @ nl
                       @ concat (map (\<lambda>kx. universal_newlines (content (snd kx)) @ nl) skxs)
                       @ postamble @ nl), None))"
  proof
    assume a: "(\<forall>p\<in>set ?paths. fs p = Some (content p)) \<and> output_file \<notin> set ?paths"
    with sets have "\<forall>p\<in>set (map snd ?skxs). fs p = Some (content p)"
      and "output_file \<notin> set (map snd ?skxs)"
      by simp_all
    from read_files_all [OF this]
    have rd: "read_files fs output_file flushed (map snd ?skxs) (preamble @ nl)
          = ((preamble @ nl)
               @ concat (map (\<lambda>p. universal_newlines (content p) @ nl) (map snd ?skxs)), None)" .
    have "concat_beamer_files (Inr names) NoFault flushed output_dir output_file fs
          = (fs(output_file \<mapsto>
               preamble @ nl
                 @ concat (map (\<lambda>kx. universal_newlines (content (snd kx)) @ nl) ?skxs)
                 @ postamble @ nl), None)"
      by (simp add: concat_beamer_files_def sp rd write_file_def comp_def)
    with m st show "\<exists>skxs. mset skxs = mset kxs \<and> sorted_wrt (<) (map fst skxs)
            \<and> concat_beamer_files (Inr names) NoFault flushed output_dir output_file fs
                = (fs(output_file \<mapsto>
                     preamble @ nl
                       @ concat (map (\<lambda>kx. universal_newlines (content (snd kx)) @ nl) skxs)
                       @ postamble @ nl), None)"
      by blast
  qed
  from inv keys out show ?thesis by blast
qed

theorem concat_beamer_files_sorted_witness:
  "keyed (beamer_paths ''deck_beamers'' [''deck_page_10.tex'', ''notes.txt'', ''deck_page_2.tex''])
     = Inr [(10, ''deck_beamers/deck_page_10.tex''), (2, ''deck_beamers/deck_page_2.tex'')]
   \<and> distinct (map fst [(10::nat, ''deck_beamers/deck_page_10.tex''),
                          (2, ''deck_beamers/deck_page_2.tex'')])
   \<and> mset [''deck_page_2.tex'', ''deck_page_10.tex'', ''notes.txt'']
       = mset [''deck_page_10.tex'', ''notes.txt'', ''deck_page_2.tex'']
   \<and> ''deck_full.tex''
       \<notin> set (beamer_paths ''deck_beamers'' [''deck_page_10.tex'', ''notes.txt'', ''deck_page_2.tex''])
   \<and> concat_beamer_files (Inr [''deck_page_2.tex'', ''deck_page_10.tex'', ''notes.txt'']) NoFault
        (\<lambda>out. 0) ''deck_beamers'' ''deck_full.tex''
        [''deck_beamers/deck_page_10.tex'' \<mapsto> ''X'',
         ''deck_beamers/deck_page_2.tex'' \<mapsto> [CHR ''A'', CHR 0x0D, CHR ''B'', CHR 0x0D, CHR 0x0A, CHR ''C'']]
     = concat_beamer_files (Inr [''deck_page_10.tex'', ''notes.txt'', ''deck_page_2.tex'']) NoFault
        (\<lambda>out. 0) ''deck_beamers'' ''deck_full.tex''
        [''deck_beamers/deck_page_10.tex'' \<mapsto> ''X'',
         ''deck_beamers/deck_page_2.tex'' \<mapsto> [CHR ''A'', CHR 0x0D, CHR ''B'', CHR 0x0D, CHR 0x0A, CHR ''C'']]
   \<and> fst (concat_beamer_files (Inr [''deck_page_10.tex'', ''notes.txt'', ''deck_page_2.tex''])
          NoFault (\<lambda>out. 0) ''deck_beamers'' ''deck_full.tex''
          [''deck_beamers/deck_page_10.tex'' \<mapsto> ''X'',
           ''deck_beamers/deck_page_2.tex'' \<mapsto> [CHR ''A'', CHR 0x0D, CHR ''B'', CHR 0x0D, CHR 0x0A, CHR ''C'']])
        ''deck_full.tex''
     = Some (preamble @ nl @ [CHR ''A'', CHR 0x0A, CHR ''B'', CHR 0x0A, CHR ''C''] @ nl
               @ ''X'' @ nl @ postamble @ nl)"
proof -
  let ?names = "[''deck_page_10.tex'', ''notes.txt'', ''deck_page_2.tex'']"
  let ?names' = "[''deck_page_2.tex'', ''deck_page_10.tex'', ''notes.txt'']"
  let ?kxs = "[(10::nat, ''deck_beamers/deck_page_10.tex''), (2, ''deck_beamers/deck_page_2.tex'')]"
  let ?two = "[CHR ''A'', CHR 0x0D, CHR ''B'', CHR 0x0D, CHR 0x0A, CHR ''C'']"
  let ?fs = "[''deck_beamers/deck_page_10.tex'' \<mapsto> ''X'', ''deck_beamers/deck_page_2.tex'' \<mapsto> ?two]"
  let ?content = "\<lambda>p. if p = ''deck_beamers/deck_page_10.tex'' then ''X'' else ?two"
  let ?f = "\<lambda>out::string. 0::nat"
  have k: "keyed (beamer_paths ''deck_beamers'' ?names) = Inr ?kxs"
    by (simp add: beamer_paths_def path_join_def page_key_def match_page_here_def is_digit_def
          suffix_def py_int_def digit_val_def)
  have d: "distinct (map fst ?kxs)" by simp
  have m: "mset ?names' = mset ?names" by simp
  have c: "\<forall>p\<in>set (beamer_paths ''deck_beamers'' ?names). ?fs p = Some (?content p)"
    by (simp add: beamer_paths_def path_join_def suffix_def)
  have n: "''deck_full.tex'' \<notin> set (beamer_paths ''deck_beamers'' ?names)"
    by (simp add: beamer_paths_def path_join_def suffix_def)
  have r: "fst (concat_beamer_files (Inr ?names) NoFault ?f ''deck_beamers'' ''deck_full.tex'' ?fs)
             ''deck_full.tex''
           = Some (preamble @ nl @ [CHR ''A'', CHR 0x0A, CHR ''B'', CHR 0x0A, CHR ''C''] @ nl
                     @ ''X'' @ nl @ postamble @ nl)"
    by (simp add: concat_beamer_files_def sorted_by_page_def k write_file_def)
  from concat_beamer_files_sorted [OF k d m, where fault = NoFault and flushed = ?f
      and output_file = "''deck_full.tex''" and fs = ?fs and content = ?content] c n
  have "concat_beamer_files (Inr ?names') NoFault ?f ''deck_beamers'' ''deck_full.tex'' ?fs
          = concat_beamer_files (Inr ?names) NoFault ?f ''deck_beamers'' ''deck_full.tex'' ?fs"
    and "\<exists>skxs. mset skxs = mset ?kxs \<and> sorted_wrt (<) (map fst skxs)
            \<and> concat_beamer_files (Inr ?names) NoFault ?f ''deck_beamers'' ''deck_full.tex'' ?fs
                = (?fs(''deck_full.tex'' \<mapsto>
                     preamble @ nl
                       @ concat (map (\<lambda>kx. universal_newlines (?content (snd kx)) @ nl) skxs)
                       @ postamble @ nl), None)"
    by blast+
  with k d m n r show ?thesis by blast
qed

section \<open>Normalised text geometry\<close>

lemma rnd_unit:
  assumes "mono rnd" "rnd 0 = 0" "rnd 1 = 1" "0 \<le> a" "a \<le> (1::real)"
  shows "0 \<le> rnd a \<and> rnd a \<le> (1::real)"
  using assms by (metis monoD)

text \<open>
  Claim C4, as stated, fails in its last part: the box at the top edge of the page gets
  \<open>y = 7/8\<close>, and \<open>y = 0\<close> goes to the box at the bottom edge.
\<close>

theorem text_element_of_top_edge_counterexample:
  "at_top_edge \<lparr>b_x0 = 1, b_y0 = 0, b_x1 = 3, b_y1 = 1, b_text = ''Title''\<rparr>
   \<and> text_element_of id 10 8 \<lparr>b_x0 = 1, b_y0 = 0, b_x1 = 3, b_y1 = 1, b_text = ''Title''\<rparr>
       = Inr \<lparr>te_text = ''Title'', te_x = 1 / 10, te_y = 7 / 8, te_width = 1 / 5\<rparr>
   \<and> (7 / 8 :: real) \<noteq> 0
   \<and> at_bottom_edge 8 \<lparr>b_x0 = 1, b_y0 = 7, b_x1 = 3, b_y1 = 8, b_text = ''Foot''\<rparr>
   \<and> text_element_of id 10 8 \<lparr>b_x0 = 1, b_y0 = 7, b_x1 = 3, b_y1 = 8, b_text = ''Foot''\<rparr>
       = Inr \<lparr>te_text = ''Foot'', te_x = 1 / 10, te_y = 0, te_width = 1 / 5\<rparr>"
  by (simp add: at_top_edge_def at_bottom_edge_def text_element_of_def py_truediv_def
        strip_def is_space_def)

text \<open>
  Claim C4, amended. For a bounding box inside a page of positive width \<open>W\<close> and height
  \<open>H\<close>, the text element built by \<^verbatim>\<open>extract_pdf_content\<close> has \<open>x = x0 / W\<close>,
  \<open>y = 1 - y1 / H\<close> and \<open>width = (x1 - x0) / W\<close>, each float operation rounded by
  \<open>rnd\<close>, and the three values lie between 0 and 1. The value \<open>y\<close> is measured from
  the bottom of the page: a box whose lower edge lies on the bottom edge of the page
  gets \<open>y = 0\<close>, a box with \<open>y1 = 0\<close> gets \<open>y = 1\<close>, and a box whose lower edge lies
  further down the page never gets a larger \<open>y\<close>. The rounding is any monotone function
  that keeps 0, 1 and the float \<open>W\<close>.
\<close>

theorem text_element_of_normalized:
  assumes "mono rnd" and "rnd 0 = 0" and "rnd 1 = 1" and "rnd W = W"
    and "0 < W" and "0 < H"
    and "0 \<le> b_x0 b" and "b_x0 b \<le> b_x1 b" and "b_x1 b \<le> W"
    and "0 \<le> b_y0 b" and "b_y0 b \<le> b_y1 b" and "b_y1 b \<le> H"
  shows "\<exists>t. text_element_of rnd W H b = Inr t
           \<and> te_text t = strip (b_text b)
           \<and> te_x t = rnd (b_x0 b / W)
           \<and> te_y t = rnd (1 - rnd (b_y1 b / H))
           \<and> te_width t = rnd (rnd (b_x1 b - b_x0 b) / W)
           \<and> 0 \<le> te_x t \<and> te_x t \<le> 1
           \<and> 0 \<le> te_y t \<and> te_y t \<le> 1
           \<and> 0 \<le> te_width t \<and> te_width t \<le> 1
           \<and> (at_bottom_edge H b \<longrightarrow> te_y t = 0)
           \<and> (b_y1 b = 0 \<longrightarrow> te_y t = 1)
           \<and> (\<forall>b' t'. b_y1 b \<le> b_y1 b' \<and> text_element_of rnd W H b' = Inr t'
                 \<longrightarrow> te_y t' \<le> te_y t)"
proof -
  note u = rnd_unit [OF assms(1,2,3)]
  have x: "0 \<le> rnd (b_x0 b / W) \<and> rnd (b_x0 b / W) \<le> 1"
    using assms by (intro u) simp_all
  have q: "0 \<le> rnd (b_y1 b / H) \<and> rnd (b_y1 b / H) \<le> 1"
    using assms by (intro u) simp_all
  then have y: "0 \<le> rnd (1 - rnd (b_y1 b / H)) \<and> rnd (1 - rnd (b_y1 b / H)) \<le> 1"
    by (intro u) simp_all
  have "rnd 0 \<le> rnd (b_x1 b - b_x0 b)"
    by (rule monoD [OF assms(1)]) (use assms in simp)
  moreover have "rnd (b_x1 b - b_x0 b) \<le> rnd W"
    by (rule monoD [OF assms(1)]) (use assms in simp)
  ultimately have d: "0 \<le> rnd (b_x1 b - b_x0 b)" "rnd (b_x1 b - b_x0 b) \<le> W"
    using assms by simp_all
  have w: "0 \<le> rnd (rnd (b_x1 b - b_x0 b) / W) \<and> rnd (rnd (b_x1 b - b_x0 b) / W) \<le> 1"
    using d assms by (intro u) simp_all
  have bottom: "at_bottom_edge H b \<longrightarrow> rnd (1 - rnd (b_y1 b / H)) = 0"
    using assms by (simp add: at_bottom_edge_def)
  have top: "b_y1 b = 0 \<longrightarrow> rnd (1 - rnd (b_y1 b / H)) = 1"
    using assms by simp
  have lower: "\<forall>b' t'. b_y1 b \<le> b_y1 b' \<and> text_element_of rnd W H b' = Inr t'
                 \<longrightarrow> te_y t' \<le> rnd (1 - rnd (b_y1 b / H))"
  proof (intro allI impI)
    fix b' t' assume a: "b_y1 b \<le> b_y1 b' \<and> text_element_of rnd W H b' = Inr t'"
    then have ty: "te_y t' = rnd (1 - rnd (b_y1 b' / H))"
      using assms(5,6) by (auto simp: text_element_of_def py_truediv_def)
    from a assms(6) have "b_y1 b / H \<le> b_y1 b' / H" by (simp add: divide_right_mono)
    then have "rnd (b_y1 b / H) \<le> rnd (b_y1 b' / H)" by (rule monoD [OF assms(1)])
    then have "1 - rnd (b_y1 b' / H) \<le> 1 - rnd (b_y1 b / H)" by simp
    then have "rnd (1 - rnd (b_y1 b' / H)) \<le> rnd (1 - rnd (b_y1 b / H))"
      by (rule monoD [OF assms(1)])
    with ty show "te_y t' \<le> rnd (1 - rnd (b_y1 b / H))" by simp
  qed
  have "text_element_of rnd W H b =
      Inr \<lparr>te_text = strip (b_text b), te_x = rnd (b_x0 b / W),
           te_y = rnd (1 - rnd (b_y1 b / H)),
           te_width = rnd (rnd (b_x1 b - b_x0 b) / W)\<rparr>"
    using assms by (simp add: text_element_of_def py_truediv_def)
  with x y w bottom top lower show ?thesis by simp
qed

theorem text_element_of_normalized_witness:
  "mono (\<lambda>x::real. real_of_int (round (x * 8)) / 8)
   \<and> text_element_of (\<lambda>x. real_of_int (round (x * 8)) / 8) 10 7
        \<lparr>b_x0 = 1, b_y0 = 2, b_x1 = 3, b_y1 = 5, b_text = '' Title ''\<rparr>
     = Inr \<lparr>te_text = ''Title'', te_x = 1 / 8, te_y = 1 / 4, te_width = 1 / 4\<rparr>
   \<and> at_bottom_edge 7 \<lparr>b_x0 = 1, b_y0 = 2, b_x1 = 3, b_y1 = 7, b_text = ''Foot''\<rparr>
   \<and> text_element_of id 10 7
        \<lparr>b_x0 = 1, b_y0 = 2, b_x1 = 3, b_y1 = 7, b_text = ''Foot''\<rparr>
     = Inr \<lparr>te_text = ''Foot'', te_x = 1 / 10, te_y = 0, te_width = 1 / 5\<rparr>"
proof -
  let ?r = "\<lambda>x::real. real_of_int (round (x * 8)) / 8"
  let ?b = "\<lparr>b_x0 = 1, b_y0 = 2, b_x1 = 3, b_y1 = 5, b_text = '' Title ''\<rparr>"
  let ?c = "\<lparr>b_x0 = 1, b_y0 = 2, b_x1 = 3, b_y1 = 7, b_text = ''Foot''\<rparr>"
  have m: "mono ?r"
    unfolding mono_def by (auto intro!: divide_right_mono round_mono)
  have r0: "?r 0 = 0" and r1: "?r 1 = 1" and rW: "?r 10 = 10" by simp_all
  have i: "mono (id :: real \<Rightarrow> real)" by (simp add: mono_def)
  have s1: "strip '' Title '' = ''Title''" and s2: "strip ''Foot'' = ''Foot''"
    by (simp_all add: strip_def is_space_def)
  have e: "at_bottom_edge 7 ?c" by (simp add: at_bottom_edge_def)
  from text_element_of_normalized [of ?r 10 7 ?b, OF m r0 r1 rW]
  obtain t where t: "text_element_of ?r 10 7 ?b = Inr t" "te_text t = strip '' Title ''"
    "te_x t = ?r (1 / 10)" "te_y t = ?r (1 - ?r (5 / 7))" "te_width t = ?r (?r (3 - 1) / 10)"
    by auto
  have "t = \<lparr>te_text = ''Title'', te_x = 1 / 8, te_y = 1 / 4, te_width = 1 / 4\<rparr>"
    using t(2-5) s1 by (cases t) (simp add: round_def)
  with t(1) have a: "text_element_of ?r 10 7 ?b
      = Inr \<lparr>te_text = ''Title'', te_x = 1 / 8, te_y = 1 / 4, te_width = 1 / 4\<rparr>"
    by simp
  from text_element_of_normalized [of id 10 7 ?c, OF i] e
  obtain t' where t': "text_element_of id 10 7 ?c = Inr t'" "te_text t' = strip ''Foot''"
    "te_x t' = 1 / 10" "te_y t' = 0" "te_width t' = (3 - 1) / 10"
    by auto
  have "t' = \<lparr>te_text = ''Foot'', te_x = 1 / 10, te_y = 0, te_width = 1 / 5\<rparr>"
    using t'(2-5) s2 by (cases t') simp
  with t'(1) have b: "text_element_of id 10 7 ?c
      = Inr \<lparr>te_text = ''Foot'', te_x = 1 / 10, te_y = 0, te_width = 1 / 5\<rparr>"
    by simp
  from m e a b show ?thesis by blast
qed

text \<open>
  Claim C7, as stated, fails: on a page of width 0 the division raises Python's
  \<open>ZeroDivisionError\<close>, not \<open>MalformedPageError\<close>.
\<close>

theorem text_element_of_zero_width_counterexample:
  "text_element_of id 0 5 \<lparr>b_x0 = 1, b_y0 = 2, b_x1 = 3, b_y1 = 4, b_text = ''a''\<rparr>
     = Inl ZeroDivisionError
   \<and> (Inl ZeroDivisionError :: error + text_element) \<noteq> Inl MalformedPageError"
  by (simp add: text_element_of_def py_truediv_def)

text \<open>
  Claim C7, amended. The text element of a block raises \<open>ZeroDivisionError\<close> exactly
  when the page width or the page height is 0, and raises nothing else; the first block
  of such a page ends the extraction of the text blocks with that exception, and a page
  without text blocks raises nothing.
\<close>

theorem text_element_of_zero_division:
  "(text_element_of rnd W H b = Inl ZeroDivisionError \<longleftrightarrow> W = 0 \<or> H = 0)
   \<and> (text_element_of rnd W H b = Inl e \<longrightarrow> e = ZeroDivisionError)
   \<and> (W = 0 \<or> H = 0 \<longrightarrow> text_elements_of rnd W H (b # bs) = Inl ZeroDivisionError)
   \<and> text_elements_of rnd W H [] = Inr []"
  by (auto simp: text_element_of_def py_truediv_def)

theorem text_element_of_zero_division_witness:
  "text_element_of id 4 0 \<lparr>b_x0 = 1, b_y0 = 2, b_x1 = 3, b_y1 = 4, b_text = ''a''\<rparr>
     = Inl ZeroDivisionError
   \<and> text_elements_of id 0 5
       [\<lparr>b_x0 = 1, b_y0 = 2, b_x1 = 3, b_y1 = 4, b_text = ''a''\<rparr>,
        \<lparr>b_x0 = 1, b_y0 = 2, b_x1 = 3, b_y1 = 4, b_text = ''b''\<rparr>] = Inl ZeroDivisionError
   \<and> text_element_of id 4 5 \<lparr>b_x0 = 1, b_y0 = 2, b_x1 = 3, b_y1 = 4, b_text = ''a''\<rparr>
     \<noteq> Inl ZeroDivisionError"
proof -
  let ?b = "\<lparr>b_x0 = 1, b_y0 = 2, b_x1 = 3, b_y1 = 4, b_text = ''a''\<rparr>"
  let ?c = "\<lparr>b_x0 = 1, b_y0 = 2, b_x1 = 3, b_y1 = 4, b_text = ''b''\<rparr>"
  have z: "(4::real) = 0 \<or> (0::real) = 0" and z': "(0::real) = 0 \<or> (5::real) = 0"
    and n: "\<not> ((4::real) = 0 \<or> (5::real) = 0)" by simp_all
  from text_element_of_zero_division [of id 4 0 ?b] z
  have a: "text_element_of id 4 0 ?b = Inl ZeroDivisionError" by blast
  from text_element_of_zero_division [of id 0 5 ?b _ "[?c]"] z'
  have b: "text_elements_of id 0 5 [?b, ?c] = Inl ZeroDivisionError" by blast
  from text_element_of_zero_division [of id 4 5 ?b] n
  have c: "text_element_of id 4 5 ?b \<noteq> Inl ZeroDivisionError" by blast
  from a b c show ?thesis by blast
qed

section \<open>Page extraction\<close>

lemma write_file_ok:
  "write_file path data fault fs = (fs', None) \<Longrightarrow> fault = NoFault \<and> fs' = fs(path \<mapsto> data)"
  by (cases fault) (auto simp: write_file_def)

lemma save_images_Inr:
  "save_images faults images_dir page_num k0 imgs fs = (fs', Inr img_paths) \<Longrightarrow>
   length img_paths = length imgs
   \<and> (\<forall>j<length imgs. \<exists>base. imgs ! j = Inr base
         \<and> img_paths ! j = path_join images_dir (img_name page_num (k0 + j) (bi_ext base))
         \<and> faults (img_paths ! j) = NoFault)"
proof (induction imgs arbitrary: k0 fs fs' img_paths)
  case Nil
  then show ?case by simp
next
  case (Cons img imgs)
  from Cons.prems obtain base where b: "img = Inr base"
    by (cases img) auto
  let ?p = "path_join images_dir (img_name page_num k0 (bi_ext base))"
  from Cons.prems b obtain fs1 where w: "write_file ?p (bi_image base) (faults ?p) fs = (fs1, None)"
    by (auto simp: Let_def split: prod.splits option.splits sum.splits)
  from Cons.prems b w obtain rest where
    r: "save_images faults images_dir page_num (k0 + 1) imgs fs1 = (fs', Inr rest)"
    and ip: "img_paths = ?p # rest"
    by (auto simp: Let_def split: prod.splits sum.splits)
  from Cons.IH [OF r] have ih: "length rest = length imgs"
    "\<forall>j<length imgs. \<exists>base. imgs ! j = Inr base
         \<and> rest ! j = path_join images_dir (img_name page_num (k0 + 1 + j) (bi_ext base))
         \<and> faults (rest ! j) = NoFault"
    by blast+
  have f: "faults ?p = NoFault" using write_file_ok [OF w] by simp
  show ?case
  proof (intro conjI allI impI)
    show "length img_paths = length (img # imgs)" using ih(1) ip by simp
  next
    fix j assume "j < length (img # imgs)"
    then show "\<exists>base. (img # imgs) ! j = Inr base
         \<and> img_paths ! j = path_join images_dir (img_name page_num (k0 + j) (bi_ext base))
         \<and> faults (img_paths ! j) = NoFault"
      using ih(2) ip b f by (cases j) auto
  qed
qed

lemma extract_pages_Inr:
  "extract_pages rnd faults images_dir n0 ps fs = (fs', Inr content) \<Longrightarrow>
   length content = length ps
   \<and> (\<forall>n<length ps. pd_page_num (content ! n) = n0 + n
         \<and> length (pd_images (content ! n)) = length (images (ps ! n))
         \<and> (\<forall>k<length (images (ps ! n)). \<exists>base. images (ps ! n) ! k = Inr base
               \<and> pd_images (content ! n) ! k
                   = path_join images_dir (img_name (n0 + n) k (bi_ext base))
               \<and> faults (pd_images (content ! n) ! k) = NoFault))"
proof (induction ps arbitrary: n0 fs fs' content)
  case Nil
  then show ?case by simp
next
  case (Cons p ps)
  from Cons.prems obtain fs1 img_paths where
    s: "save_images faults images_dir n0 0 (images p) fs = (fs1, Inr img_paths)"
    by (auto split: prod.splits sum.splits)
  from Cons.prems s obtain tes where
    t: "text_elements_of rnd (rect_width p) (rect_height p) (text_blocks p) = Inr tes"
    by (auto split: prod.splits sum.splits)
  from Cons.prems s t obtain rest where
    r: "extract_pages rnd faults images_dir (n0 + 1) ps fs1 = (fs', Inr rest)"
    and c: "content = \<lparr>pd_page_num = n0, pd_text = tes, pd_images = img_paths,
                        pd_dimensions = (rect_width p, rect_height p)\<rparr> # rest"
    by (auto split: prod.splits sum.splits)
  note si = save_images_Inr [OF s]
  note ih = Cons.IH [OF r]
  show ?case
  proof (intro conjI allI impI)
    show "length content = length (p # ps)" using ih c by simp
  next
    fix n assume n: "n < length (p # ps)"
    show "pd_page_num (content ! n) = n0 + n"
      using n ih c by (cases n) auto
    show "length (pd_images (content ! n)) = length (images ((p # ps) ! n))"
      using n ih c si by (cases n) auto
  next
    fix n k assume n: "n < length (p # ps)" and k: "k < length (images ((p # ps) ! n))"
    show "\<exists>base. images ((p # ps) ! n) ! k = Inr base
               \<and> pd_images (content ! n) ! k
                   = path_join images_dir (img_name (n0 + n) k (bi_ext base))
               \<and> faults (pd_images (content ! n) ! k) = NoFault"
    proof (cases n)
      case 0
      with k si c show ?thesis by simp
    next
      case (Suc m)
      with n k ih c show ?thesis by simp
    qed
  qed
qed


text \<open>
  Claim C8, as stated, fails: when the second image of a page cannot be decoded, the
  exception leaves \<^verbatim>\<open>extract_pdf_content\<close>. No page record is returned, although the first
  image has been written.
\<close>

theorem extract_pdf_content_image_counterexample:
  "snd (extract_pdf_content id (\<lambda>path. NoFault)
          (Inr [\<lparr>text_blocks = [],
                  images = [Inr \<lparr>bi_image = ''AB'', bi_ext = ''png''\<rparr>, Inl (LibraryError ''xref'')],
                  rect_width = 10, rect_height = 7\<rparr>])
          ''deck_images'' Map.empty)
     = Inl (LibraryError ''xref'')
   \<and> fst (extract_pdf_content id (\<lambda>path. NoFault)
          (Inr [\<lparr>text_blocks = [],
                  images = [Inr \<lparr>bi_image = ''AB'', bi_ext = ''png''\<rparr>, Inl (LibraryError ''xref'')],
                  rect_width = 10, rect_height = 7\<rparr>])
          ''deck_images'' Map.empty) ''deck_images/page_1_image_0.png''
     = Some ''AB''
   \<and> (Inl (LibraryError ''xref'') :: error + page_data list)
     \<noteq> Inr [\<lparr>pd_page_num = 0, pd_text = [], pd_images = [''deck_images/page_1_image_0.png''],
              pd_dimensions = (10, 7)\<rparr>]"
proof -
  have n: "img_name 0 0 ''png'' = ''page_1_image_0.png''" by code_simp
  show ?thesis
    by (simp add: extract_pdf_content_def n path_join_def suffix_def write_file_def)
qed

text \<open>
  Claim C8, amended. There is no exception handler around the decoding and the writing
  of an image: if one image of one page cannot be decoded, or cannot be written, the
  exception leaves \<^verbatim>\<open>extract_pdf_content\<close>, which returns no page record at all.
\<close>

theorem extract_pdf_content_image_failure:
  assumes "n < length doc" and "k < length (images (doc ! n))"
    and "(\<exists>e. images (doc ! n) ! k = Inl e)
         \<or> (\<exists>base. images (doc ! n) ! k = Inr base
               \<and> faults (path_join images_dir (img_name n k (bi_ext base))) \<noteq> NoFault)"
  shows "\<exists>e. snd (extract_pdf_content rnd faults (Inr doc) images_dir fs) = Inl e"
proof (rule ccontr)
  assume "\<not> (\<exists>e. snd (extract_pdf_content rnd faults (Inr doc) images_dir fs) = Inl e)"
  then have "\<forall>e. snd (extract_pages rnd faults images_dir 0 doc fs) \<noteq> Inl e"
    by (simp add: extract_pdf_content_def)
  then obtain content where "snd (extract_pages rnd faults images_dir 0 doc fs) = Inr content"
    by (cases "snd (extract_pages rnd faults images_dir 0 doc fs)") auto
  then obtain fs' where "extract_pages rnd faults images_dir 0 doc fs = (fs', Inr content)"
    by (cases "extract_pages rnd faults images_dir 0 doc fs") auto
  from extract_pages_Inr [OF this] assms(1,2)
  obtain base where "images (doc ! n) ! k = Inr base"
    "pd_images (content ! n) ! k = path_join images_dir (img_name n k (bi_ext base))"
    "faults (pd_images (content ! n) ! k) = NoFault"
    by fastforce
  with assms(3) show False by auto
qed

theorem extract_pdf_content_image_failure_witness:
  "snd (extract_pdf_content id (\<lambda>path. NoFault)
          (Inr [\<lparr>text_blocks = [],
                  images = [Inr \<lparr>bi_image = ''AB'', bi_ext = ''png''\<rparr>, Inl (LibraryError ''xref'')],
                  rect_width = 10, rect_height = 7\<rparr>])
          ''deck_images'' Map.empty)
     = Inl (LibraryError ''xref'')
   \<and> snd (extract_pdf_content id
          (\<lambda>path. if path = ''deck_images/page_1_image_0.png'' then WriteFails 1 else NoFault)
          (Inr [\<lparr>text_blocks = [], images = [Inr \<lparr>bi_image = ''AB'', bi_ext = ''png''\<rparr>],
                  rect_width = 10, rect_height = 7\<rparr>])
          ''deck_images'' Map.empty)
     = Inl OSError"
proof -
  let ?p = "\<lparr>text_blocks = [],
              images = [Inr \<lparr>bi_image = ''AB'', bi_ext = ''png''\<rparr>, Inl (LibraryError ''xref'')],
              rect_width = 10, rect_height = 7\<rparr>"
  let ?q = "\<lparr>text_blocks = [], images = [Inr \<lparr>bi_image = ''AB'', bi_ext = ''png''\<rparr>],
              rect_width = 10, rect_height = 7\<rparr>"
  let ?f = "\<lambda>path. if path = ''deck_images/page_1_image_0.png'' then WriteFails 1 else NoFault"
  have n: "img_name 0 0 ''png'' = ''page_1_image_0.png''" by code_simp
  have a: "snd (extract_pdf_content id (\<lambda>path. NoFault) (Inr [?p]) ''deck_images'' Map.empty)
             = Inl (LibraryError ''xref'')"
    by (simp add: extract_pdf_content_def n path_join_def suffix_def write_file_def)
  have b: "snd (extract_pdf_content id ?f (Inr [?q]) ''deck_images'' Map.empty) = Inl OSError"
    by (simp add: extract_pdf_content_def n path_join_def suffix_def write_file_def)
  have h1: "(0::nat) < length [?p]" and h2: "1 < length (images ([?p] ! 0))"
    and h3: "\<exists>e. images ([?p] ! 0) ! 1 = Inl e" by simp_all
  have g1: "(0::nat) < length [?q]" and g2: "0 < length (images ([?q] ! 0))"
    and g3: "\<exists>base. images ([?q] ! 0) ! 0 = Inr base
               \<and> ?f (path_join ''deck_images'' (img_name 0 0 (bi_ext base))) \<noteq> NoFault"
    by (simp_all add: n path_join_def suffix_def)
  from extract_pdf_content_image_failure [OF h1 h2 disjI1 [OF h3], of id "\<lambda>path. NoFault"
      "''deck_images''" Map.empty]
    extract_pdf_content_image_failure [OF g1 g2 disjI2 [OF g3], of id Map.empty]
    a b
  show ?thesis by blast
qed

section \<open>The pipeline driver\<close>

lemma beamer_file_of_inj: "beamer_file_of file_name i = beamer_file_of file_name j \<Longrightarrow> i = j"
  by (simp add: beamer_file_of_def py_str_inj)

lemma beamer_file_of_not_full: "beamer_file_of file_name i \<noteq> file_name @ ''_full.tex''"
  by (simp add: beamer_file_of_def)




lemma main_loop_ok:
  assumes "\<not> i \<le> 27"
    and "convert_page_to_image E pdf_path (pd_page_num page_data) (file_name @ ''_temp'') = Inr b"
    and "generate_beamer_frame E page_data b = Inr frame"
    and "io_faults E (beamer_file_of file_name i) = NoFault"
    and "pd_page_num page_data = i"
  shows "main_loop E pdf_path file_name ((i, page_data) # rest) w
     = main_loop E pdf_path file_name rest
         (w\<lparr>files := (files w)(beamer_file_of file_name i \<mapsto> clean_frame frame @ nl),
            stdout := stdout w @ page_lines file_name i\<rparr>)"
  using assms
  by (simp add: Let_def create_latex_document_def write_file_def print_def page_lines_def)


lemma upt_max_skip: "m \<le> 27 \<Longrightarrow> [max 28 m..<b] = [max 28 (Suc m)..<b]"
proof -
  assume "m \<le> 27"
  then have "max 28 m = 28" "max 28 (Suc m) = 28" by simp_all
  then show ?thesis by simp
qed

lemma upt_max_take:
  "\<not> m \<le> 27 \<Longrightarrow> [max 28 m..<Suc (m + n)] = m # [max 28 (Suc m)..<Suc (m + n)]"
proof -
  assume "\<not> m \<le> 27"
  then have "max 28 m = m" "max 28 (Suc m) = Suc m" by simp_all
  moreover have "[m..<Suc (m + n)] = m # [Suc m..<Suc (m + n)]"
    by (rule upt_conv_Cons) simp
  ultimately show ?thesis by simp
qed



lemma main_loop_prefix_ok:
  assumes "\<forall>j<length content. pd_page_num (content ! j) = m + j"
    and "\<forall>j<length content. 28 \<le> m + j \<longrightarrow>
           (\<exists>b frame. convert_page_to_image E pdf_path (m + j) (file_name @ ''_temp'') = Inr b
              \<and> generate_beamer_frame E (content ! j) b = Inr frame
              \<and> io_faults E (beamer_file_of file_name (m + j)) = NoFault)"
  shows "\<exists>w''. main_loop E pdf_path file_name (List.enumerate m content @ rest) w
                  = main_loop E pdf_path file_name rest w''
           \<and> stdout w'' = stdout w
               @ concat (map (page_lines file_name) [max 28 m..<m + length content])
           \<and> (\<forall>path. (\<forall>i. 28 \<le> i \<and> m \<le> i \<and> i < m + length content
                          \<longrightarrow> path \<noteq> beamer_file_of file_name i)
                  \<longrightarrow> files w'' path = files w path)
           \<and> (\<forall>j<length content. 28 \<le> m + j \<longrightarrow>
                 (\<exists>b frame. convert_page_to_image E pdf_path (m + j) (file_name @ ''_temp'') = Inr b
                    \<and> generate_beamer_frame E (content ! j) b = Inr frame
                    \<and> files w'' (beamer_file_of file_name (m + j))
                        = Some (clean_frame frame @ nl)))"
  using assms
proof (induction content arbitrary: m w)
  case Nil
  show ?case by (rule exI [of _ w]) simp
next
  case (Cons c cs)
  have pn: "pd_page_num c = m" using Cons.prems(1) by force
  have sh: "\<forall>j<length cs. pd_page_num (cs ! j) = Suc m + j"
    using Cons.prems(1) by force
  have ok: "\<forall>j<length cs. 28 \<le> Suc m + j \<longrightarrow>
           (\<exists>b frame. convert_page_to_image E pdf_path (Suc m + j) (file_name @ ''_temp'') = Inr b
              \<and> generate_beamer_frame E (cs ! j) b = Inr frame
              \<and> io_faults E (beamer_file_of file_name (Suc m + j)) = NoFault)"
  proof (intro allI impI)
    fix j assume "j < length cs" "28 \<le> Suc m + j"
    with Cons.prems(2) [rule_format, of "Suc j"] show
      "\<exists>b frame. convert_page_to_image E pdf_path (Suc m + j) (file_name @ ''_temp'') = Inr b
              \<and> generate_beamer_frame E (cs ! j) b = Inr frame
              \<and> io_faults E (beamer_file_of file_name (Suc m + j)) = NoFault"
      by simp
  qed
  have en: "List.enumerate m (c # cs) @ rest = (m, c) # (List.enumerate (Suc m) cs @ rest)"
    by (simp add: enumerate_simps)
  show ?case
  proof (cases "m \<le> 27")
    case True
    from Cons.IH [OF sh ok, of w] obtain w'' where
      r: "main_loop E pdf_path file_name (List.enumerate (Suc m) cs @ rest) w
            = main_loop E pdf_path file_name rest w''"
      and so: "stdout w'' = stdout w
               @ concat (map (page_lines file_name) [max 28 (Suc m)..<Suc m + length cs])"
      and fr: "\<forall>path. (\<forall>i. 28 \<le> i \<and> Suc m \<le> i \<and> i < Suc m + length cs
                          \<longrightarrow> path \<noteq> beamer_file_of file_name i)
                  \<longrightarrow> files w'' path = files w path"
      and ar: "\<forall>j<length cs. 28 \<le> Suc m + j \<longrightarrow>
                 (\<exists>b frame. convert_page_to_image E pdf_path (Suc m + j) (file_name @ ''_temp'') = Inr b
                    \<and> generate_beamer_frame E (cs ! j) b = Inr frame
                    \<and> files w'' (beamer_file_of file_name (Suc m + j))
                        = Some (clean_frame frame @ nl))"
      by blast
    have 1: "main_loop E pdf_path file_name (List.enumerate m (c # cs) @ rest) w
                  = main_loop E pdf_path file_name rest w''"
      using r True by (simp add: en)
    have 2: "stdout w'' = stdout w
               @ concat (map (page_lines file_name) [max 28 m..<m + length (c # cs)])"
      using so upt_max_skip [OF True, of "Suc (m + length cs)"] by simp
    have 3: "\<forall>path. (\<forall>i. 28 \<le> i \<and> m \<le> i \<and> i < m + length (c # cs)
                          \<longrightarrow> path \<noteq> beamer_file_of file_name i)
                  \<longrightarrow> files w'' path = files w path"
      using fr by simp
    have 4: "\<forall>j<length (c # cs). 28 \<le> m + j \<longrightarrow>
                 (\<exists>b frame. convert_page_to_image E pdf_path (m + j) (file_name @ ''_temp'') = Inr b
                    \<and> generate_beamer_frame E ((c # cs) ! j) b = Inr frame
                    \<and> files w'' (beamer_file_of file_name (m + j))
                        = Some (clean_frame frame @ nl))"
    proof (intro allI impI)
      fix j assume j: "j < length (c # cs)" "28 \<le> m + j"
      with True obtain j' where j': "j = Suc j'" by (cases j) auto
      with j ar [rule_format, of j'] show
        "\<exists>b frame. convert_page_to_image E pdf_path (m + j) (file_name @ ''_temp'') = Inr b
                    \<and> generate_beamer_frame E ((c # cs) ! j) b = Inr frame
                    \<and> files w'' (beamer_file_of file_name (m + j))
                        = Some (clean_frame frame @ nl)"
        by simp
    qed
    from 1 2 3 4 show ?thesis by blast
  next
    case False
    from Cons.prems(2) [rule_format, of 0] False obtain b frame where
      cv: "convert_page_to_image E pdf_path m (file_name @ ''_temp'') = Inr b"
      and gn: "generate_beamer_frame E c b = Inr frame"
      and nf: "io_faults E (beamer_file_of file_name m) = NoFault"
      by auto
    let ?w1 = "w\<lparr>files := (files w)(beamer_file_of file_name m \<mapsto> clean_frame frame @ nl),
                 stdout := stdout w @ page_lines file_name m\<rparr>"
    from cv pn have cv': "convert_page_to_image E pdf_path (pd_page_num c) (file_name @ ''_temp'') = Inr b"
      by simp
    note step = main_loop_ok [OF False cv' gn nf pn]
    from Cons.IH [OF sh ok, of ?w1] obtain w'' where
      r: "main_loop E pdf_path file_name (List.enumerate (Suc m) cs @ rest) ?w1
            = main_loop E pdf_path file_name rest w''"
      and so: "stdout w'' = stdout ?w1
               @ concat (map (page_lines file_name) [max 28 (Suc m)..<Suc m + length cs])"
      and fr: "\<forall>path. (\<forall>i. 28 \<le> i \<and> Suc m \<le> i \<and> i < Suc m + length cs
                          \<longrightarrow> path \<noteq> beamer_file_of file_name i)
                  \<longrightarrow> files w'' path = files ?w1 path"
      and ar: "\<forall>j<length cs. 28 \<le> Suc m + j \<longrightarrow>
                 (\<exists>b frame. convert_page_to_image E pdf_path (Suc m + j) (file_name @ ''_temp'') = Inr b
                    \<and> generate_beamer_frame E (cs ! j) b = Inr frame
                    \<and> files w'' (beamer_file_of file_name (Suc m + j))
                        = Some (clean_frame frame @ nl))"
      by blast
    have 1: "main_loop E pdf_path file_name (List.enumerate m (c # cs) @ rest) w
                  = main_loop E pdf_path file_name rest w''"
      using r step by (simp only: en)
    have 2: "stdout w'' = stdout w
               @ concat (map (page_lines file_name) [max 28 m..<m + length (c # cs)])"
      using so upt_max_take [OF False, of "length cs"] by simp
    have 3: "\<forall>path. (\<forall>i. 28 \<le> i \<and> m \<le> i \<and> i < m + length (c # cs)
                          \<longrightarrow> path \<noteq> beamer_file_of file_name i)
                  \<longrightarrow> files w'' path = files w path"
    proof (intro allI impI)
      fix path assume a: "\<forall>i. 28 \<le> i \<and> m \<le> i \<and> i < m + length (c # cs)
                          \<longrightarrow> path \<noteq> beamer_file_of file_name i"
      then have "path \<noteq> beamer_file_of file_name m" using False by simp
      moreover from a have "files w'' path = files ?w1 path" using fr by simp
      ultimately show "files w'' path = files w path" by simp
    qed
    have 4: "\<forall>j<length (c # cs). 28 \<le> m + j \<longrightarrow>
                 (\<exists>b frame. convert_page_to_image E pdf_path (m + j) (file_name @ ''_temp'') = Inr b
                    \<and> generate_beamer_frame E ((c # cs) ! j) b = Inr frame
                    \<and> files w'' (beamer_file_of file_name (m + j))
                        = Some (clean_frame frame @ nl))"
    proof (intro allI impI)
      fix j assume j: "j < length (c # cs)" "28 \<le> m + j"
      show "\<exists>b frame. convert_page_to_image E pdf_path (m + j) (file_name @ ''_temp'') = Inr b
                    \<and> generate_beamer_frame E ((c # cs) ! j) b = Inr frame
                    \<and> files w'' (beamer_file_of file_name (m + j))
                        = Some (clean_frame frame @ nl)"
      proof (cases j)
        case 0
        have "\<forall>i. 28 \<le> i \<and> Suc m \<le> i \<and> i < Suc m + length cs
                 \<longrightarrow> beamer_file_of file_name m \<noteq> beamer_file_of file_name i"
          by (auto dest: beamer_file_of_inj)
        with fr have "files w'' (beamer_file_of file_name m) = files ?w1 (beamer_file_of file_name m)"
          by blast
        with 0 cv gn show ?thesis by simp
      next
        case (Suc j')
        with j ar [rule_format, of j'] show ?thesis by simp
      qed
    qed
    from 1 2 3 4 show ?thesis by blast
  qed
qed

lemma write_file_other:
  "write_file path data fault fs = (fs', r) \<Longrightarrow> q \<noteq> path \<Longrightarrow> fs' q = fs q"
  by (cases fault) (auto simp: write_file_def)

lemma save_images_files:
  "save_images faults images_dir page_num k imgs fs = (fs', r) \<Longrightarrow>
   \<forall>pn j ext. path \<noteq> path_join images_dir (img_name pn j ext) \<Longrightarrow>
   fs' path = fs path"
proof (induction imgs arbitrary: k fs fs' r)
  case Nil
  then show ?case by simp
next
  case (Cons img imgs)
  show ?case
  proof (cases img)
    case (Inl e)
    with Cons.prems show ?thesis by simp
  next
    case (Inr base)
    let ?p = "path_join images_dir (img_name page_num k (bi_ext base))"
    obtain fs1 r1 where w: "write_file ?p (bi_image base) (faults ?p) fs = (fs1, r1)"
      by (cases "write_file ?p (bi_image base) (faults ?p) fs")
    have f1: "fs1 path = fs path"
      using write_file_other [OF w] Cons.prems(2) by blast
    show ?thesis
    proof (cases r1)
      case (Some e)
      with Cons.prems(1) Inr w have "fs' = fs1" by (simp add: Let_def)
      with f1 show ?thesis by simp
    next
      case None
      obtain fs2 r2 where s: "save_images faults images_dir page_num (k + 1) imgs fs1 = (fs2, r2)"
        by (cases "save_images faults images_dir page_num (k + 1) imgs fs1")
      with Cons.prems(1) Inr w None have "fs' = fs2"
        by (auto simp: Let_def split: sum.splits)
      with Cons.IH [OF s Cons.prems(2)] f1 show ?thesis by simp
    qed
  qed
qed

lemma extract_pages_files:
  "extract_pages rnd faults images_dir n0 ps fs = (fs', r) \<Longrightarrow>
   \<forall>pn j ext. path \<noteq> path_join images_dir (img_name pn j ext) \<Longrightarrow>
   fs' path = fs path"
proof (induction ps arbitrary: n0 fs fs' r)
  case Nil
  then show ?case by simp
next
  case (Cons p ps)
  obtain fs1 r1 where s: "save_images faults images_dir n0 0 (images p) fs = (fs1, r1)"
    by (cases "save_images faults images_dir n0 0 (images p) fs")
  have f1: "fs1 path = fs path" using save_images_files [OF s Cons.prems(2)] .
  show ?case
  proof (cases r1)
    case (Inl e)
    with Cons.prems(1) s have "fs' = fs1" by simp
    with f1 show ?thesis by simp
  next
    case (Inr img_paths)
    show ?thesis
    proof (cases "text_elements_of rnd (rect_width p) (rect_height p) (text_blocks p)")
      case (Inl e)
      with Cons.prems(1) s Inr have "fs' = fs1" by simp
      with f1 show ?thesis by simp
    next
      case t: (Inr tes)
      obtain fs2 r2 where e: "extract_pages rnd faults images_dir (n0 + 1) ps fs1 = (fs2, r2)"
        by (cases "extract_pages rnd faults images_dir (n0 + 1) ps fs1")
      with Cons.prems(1) s Inr t have "fs' = fs2" by (auto split: sum.splits)
      with Cons.IH [OF e Cons.prems(2)] f1 show ?thesis by simp
    qed
  qed
qed

lemma extract_pdf_content_files:
  "extract_pdf_content rnd faults opened images_dir fs = (fs', r) \<Longrightarrow>
   \<forall>pn j ext. path \<noteq> path_join images_dir (img_name pn j ext) \<Longrightarrow>
   fs' path = fs path"
  by (cases opened) (auto simp: extract_pdf_content_def dest: extract_pages_files)


lemma images_path:
  "path_join (file_name @ ''_images'') (img_name pn j ext)
     = file_name @ ''_images/'' @ img_name pn j ext"
proof -
  have "\<not> suffix ''/'' (file_name @ ''_images'')"
  proof
    assume "suffix ''/'' (file_name @ ''_images'')"
    then obtain zs where "file_name @ ''_images'' = zs @ ''/''" by (auto simp: suffix_def)
    then have "last (file_name @ ''_images'') = last (zs @ ''/'')" by simp
    then show False by simp
  qed
  then show ?thesis by (simp add: path_join_def img_name_def)
qed

lemma beamer_file_of_not_image:
  "beamer_file_of file_name i \<noteq> path_join (file_name @ ''_images'') (img_name pn j ext)"
  by (simp add: images_path beamer_file_of_def)

lemma full_not_image:
  "file_name @ ''_full.tex'' \<noteq> path_join (file_name @ ''_images'') (img_name pn j ext)"
  by (simp add: images_path)

lemma extract_pdf_content_Inr:
  assumes "extract_pdf_content rnd faults opened images_dir fs = (fs', Inr content)"
  shows "\<exists>doc. opened = Inr doc \<and> length content = length doc
           \<and> (\<forall>n<length content. pd_page_num (content ! n) = n)"
proof (cases opened)
  case (Inl e)
  with assms show ?thesis by (simp add: extract_pdf_content_def)
next
  case (Inr doc)
  with assms have "extract_pages rnd faults images_dir 0 doc fs = (fs', Inr content)"
    by (simp add: extract_pdf_content_def)
  from extract_pages_Inr [OF this] Inr show ?thesis by simp
qed







text \<open>
  Claim C2, as stated, fails: when the content generator fails on page 28 of thirty
  pages, \<^verbatim>\<open>main\<close> ends with that exception. No final document is assembled, and page 29,
  for which the generator would have answered, is never processed.
\<close>

theorem main_generation_failure_counterexample:
  "snd (main (example_env 30 (Some 28)) ''deck.pdf'' empty_world)
     = Some (LibraryError ''quota exceeded'')
   \<and> files (fst (main (example_env 30 (Some 28)) ''deck.pdf'' empty_world)) ''deck_full.tex''
     = None
   \<and> files (fst (main (example_env 30 (Some 28)) ''deck.pdf'' empty_world))
        ''deck_beamers/deck_page_29.tex'' = None
   \<and> stdout (fst (main (example_env 30 (Some 28)) ''deck.pdf'' empty_world)) = []"
  by code_simp

text \<open>
  Claim C2, amended. Let the directories be made and the extraction succeed, let the
  pages from 28 up to, not including, page \<open>p\<close> be processed without failure, and let
  the content generator fail on page \<open>p\<close>. Then \<^verbatim>\<open>main\<close> ends with the generator's
  exception: the artifacts of the pages 28 to \<open>p - 1\<close> are on disk, the artifact of
  no page from \<open>p\<close> on is written, and no final document is written.
\<close>

theorem main_generation_failure_aborts:
  assumes "file_name = file_name_of pdf_path"
    and "makedirs E (file_name @ ''_images'') = None"
    and "makedirs E (file_name @ ''_temp'') = None"
    and "makedirs E (file_name @ ''_beamers'') = None"
    and "extract_pdf_content (float_rnd E) (io_faults E) (fitz_open E pdf_path)
           (file_name @ ''_images'') (files w) = (fs1, Inr content)"
    and "28 \<le> p" and "p < length content"
    and "\<forall>i. 28 \<le> i \<and> i < p \<longrightarrow>
           (\<exists>b frame. convert_page_to_image E pdf_path i (file_name @ ''_temp'') = Inr b
              \<and> generate_beamer_frame E (content ! i) b = Inr frame
              \<and> io_faults E (beamer_file_of file_name i) = NoFault)"
    and "convert_page_to_image E pdf_path p (file_name @ ''_temp'') = Inr b"
    and "generate_beamer_frame E (content ! p) b = Inl e"
  shows "\<exists>w'. main E pdf_path w = (w', Some e)
           \<and> stdout w' = stdout w @ concat (map (page_lines file_name) [28..<p])
           \<and> files w' (file_name @ ''_full.tex'') = files w (file_name @ ''_full.tex'')
           \<and> (\<forall>j\<ge>p. files w' (beamer_file_of file_name j)
                        = files w (beamer_file_of file_name j))
           \<and> (\<forall>i. 28 \<le> i \<and> i < p \<longrightarrow>
                 (\<exists>b frame. convert_page_to_image E pdf_path i (file_name @ ''_temp'') = Inr b
                    \<and> generate_beamer_frame E (content ! i) b = Inr frame
                    \<and> files w' (beamer_file_of file_name i) = Some (clean_frame frame @ nl)))"
proof -
  let ?pre = "take p content"
  let ?rest = "(p, content ! p) # List.enumerate (Suc p) (drop (Suc p) content)"
  let ?w0 = "w\<lparr>files := fs1\<rparr>"
  from extract_pdf_content_Inr [OF assms(5)]
  have pn: "\<forall>n<length content. pd_page_num (content ! n) = n" by blast
  have lp: "length ?pre = p" using assms(7) by simp
  have "content = ?pre @ content ! p # drop (Suc p) content"
    using assms(7) by (simp add: id_take_nth_drop [symmetric])
  then have "List.enumerate 0 content
      = List.enumerate 0 (?pre @ content ! p # drop (Suc p) content)" by simp
  also have "\<dots> = List.enumerate 0 ?pre @ ?rest"
    using lp by (simp add: enumerate_append_eq enumerate_simps)
  finally have en: "List.enumerate 0 content = List.enumerate 0 ?pre @ ?rest" .
  have a1: "\<forall>j<length ?pre. pd_page_num (?pre ! j) = 0 + j"
    using pn assms(7) by simp
  have a2: "\<forall>j<length ?pre. 28 \<le> 0 + j \<longrightarrow>
           (\<exists>b frame. convert_page_to_image E pdf_path (0 + j) (file_name @ ''_temp'') = Inr b
              \<and> generate_beamer_frame E (?pre ! j) b = Inr frame
              \<and> io_faults E (beamer_file_of file_name (0 + j)) = NoFault)"
    using assms(8) lp by simp
  from main_loop_prefix_ok [OF a1 a2, of ?rest ?w0] obtain w'' where
    r: "main_loop E pdf_path file_name (List.enumerate 0 ?pre @ ?rest) ?w0
          = main_loop E pdf_path file_name ?rest w''"
    and so: "stdout w'' = stdout ?w0
               @ concat (map (page_lines file_name) [max 28 0..<0 + length ?pre])"
    and fr: "\<forall>path. (\<forall>i. 28 \<le> i \<and> 0 \<le> i \<and> i < 0 + length ?pre
                          \<longrightarrow> path \<noteq> beamer_file_of file_name i)
                  \<longrightarrow> files w'' path = files ?w0 path"
    and ar: "\<forall>j<length ?pre. 28 \<le> 0 + j \<longrightarrow>
                 (\<exists>b frame. convert_page_to_image E pdf_path (0 + j) (file_name @ ''_temp'') = Inr b
                    \<and> generate_beamer_frame E (?pre ! j) b = Inr frame
                    \<and> files w'' (beamer_file_of file_name (0 + j))
                        = Some (clean_frame frame @ nl))"
    by blast
  have pp: "pd_page_num (content ! p) = p" using pn assms(7) by simp
  have "main_loop E pdf_path file_name ?rest w'' = (w'', Some e)"
    using assms(6,9,10) pp by simp
  with r en have ml: "main_loop E pdf_path file_name (List.enumerate 0 content) ?w0 = (w'', Some e)"
    by simp
  have 1: "main E pdf_path w = (w'', Some e)"
    using assms(1-5) ml by (simp add: main_def Let_def)
  have 2: "stdout w'' = stdout w @ concat (map (page_lines file_name) [28..<p])"
    using so lp by simp
  have ex: "\<And>path. \<forall>pn j ext. path \<noteq> path_join (file_name @ ''_images'') (img_name pn j ext)
              \<Longrightarrow> fs1 path = files w path"
    using extract_pdf_content_files [OF assms(5)] by blast
  have 3: "files w'' (file_name @ ''_full.tex'') = files w (file_name @ ''_full.tex'')"
  proof -
    have "files w'' (file_name @ ''_full.tex'') = files ?w0 (file_name @ ''_full.tex'')"
      using fr beamer_file_of_not_full [of file_name] by (metis)
    moreover have "fs1 (file_name @ ''_full.tex'') = files w (file_name @ ''_full.tex'')"
      by (rule ex) (simp add: full_not_image)
    ultimately show ?thesis by simp
  qed
  have 4: "\<forall>j\<ge>p. files w'' (beamer_file_of file_name j) = files w (beamer_file_of file_name j)"
  proof (intro allI impI)
    fix j assume j: "p \<le> j"
    have "\<forall>i. 28 \<le> i \<and> 0 \<le> i \<and> i < 0 + length ?pre
            \<longrightarrow> beamer_file_of file_name j \<noteq> beamer_file_of file_name i"
      using j lp by (auto dest: beamer_file_of_inj)
    with fr have "files w'' (beamer_file_of file_name j) = files ?w0 (beamer_file_of file_name j)"
      by blast
    moreover have "fs1 (beamer_file_of file_name j) = files w (beamer_file_of file_name j)"
      by (rule ex) (simp add: beamer_file_of_not_image)
    ultimately show "files w'' (beamer_file_of file_name j) = files w (beamer_file_of file_name j)"
      by simp
  qed
  have 5: "\<forall>i. 28 \<le> i \<and> i < p \<longrightarrow>
                 (\<exists>b frame. convert_page_to_image E pdf_path i (file_name @ ''_temp'') = Inr b
                    \<and> generate_beamer_frame E (content ! i) b = Inr frame
                    \<and> files w'' (beamer_file_of file_name i) = Some (clean_frame frame @ nl))"
  proof (intro allI impI)
    fix i assume i: "28 \<le> i \<and> i < p"
    then have "i < length ?pre" "?pre ! i = content ! i" "28 \<le> 0 + i"
      using lp by simp_all
    with ar [rule_format, of i] show
      "\<exists>b frame. convert_page_to_image E pdf_path i (file_name @ ''_temp'') = Inr b
                    \<and> generate_beamer_frame E (content ! i) b = Inr frame
                    \<and> files w'' (beamer_file_of file_name i) = Some (clean_frame frame @ nl)"
      by simp
  qed
  from 1 2 3 4 5 show ?thesis by blast
qed


theorem main_generation_failure_aborts_witness:
  "''deck'' = file_name_of ''deck.pdf''
   \<and> (28::nat) \<le> 29
   \<and> snd (main (example_env 30 (Some 29)) ''deck.pdf'' empty_world)
       = Some (LibraryError ''quota exceeded'')
   \<and> stdout (fst (main (example_env 30 (Some 29)) ''deck.pdf'' empty_world))
       = page_lines ''deck'' 28
   \<and> files (fst (main (example_env 30 (Some 29)) ''deck.pdf'' empty_world)) ''deck_full.tex''
       = None
   \<and> files (fst (main (example_env 30 (Some 29)) ''deck.pdf'' empty_world))
        (beamer_file_of ''deck'' 29) = None
   \<and> files (fst (main (example_env 30 (Some 29)) ''deck.pdf'' empty_world))
        ''deck_beamers/deck_page_28.tex'' = Some (nl @ ''frame 28'' @ nl @ nl)"
proof -
  let ?E = "example_env 30 (Some 29)"
  let ?m = "main ?E ''deck.pdf'' empty_world"
  let ?x = "extract_pdf_content (float_rnd ?E) (io_faults ?E) (fitz_open ?E ''deck.pdf'')
              (''deck'' @ ''_images'') (files empty_world)"
  let ?content = "map (\<lambda>n. \<lparr>pd_page_num = n, pd_text = [], pd_images = [],
                              pd_dimensions = (10, 7)\<rparr>) [0..<30]"
  have h1: "''deck'' = file_name_of ''deck.pdf''" by code_simp
  have h2: "makedirs ?E (''deck'' @ ''_images'') = None"
    and h3: "makedirs ?E (''deck'' @ ''_temp'') = None"
    and h4: "makedirs ?E (''deck'' @ ''_beamers'') = None"
    by (simp_all add: example_env_def)
  have "snd ?x = Inr ?content" by code_simp
  then have h5: "?x = (fst ?x, Inr ?content)" by (metis prod.collapse)
  have h6: "(28::nat) \<le> 29" by simp
  have h7: "29 < length ?content" by simp
  have h8: "\<forall>i. 28 \<le> i \<and> i < 29 \<longrightarrow>
           (\<exists>b frame. convert_page_to_image ?E ''deck.pdf'' i (''deck'' @ ''_temp'') = Inr b
              \<and> generate_beamer_frame ?E (?content ! i) b = Inr frame
              \<and> io_faults ?E (beamer_file_of ''deck'' i) = NoFault)"
  proof (intro allI impI)
    fix i :: nat assume "28 \<le> i \<and> i < 29"
    then have "i = 28" by arith
    then show "\<exists>b frame. convert_page_to_image ?E ''deck.pdf'' i (''deck'' @ ''_temp'') = Inr b
              \<and> generate_beamer_frame ?E (?content ! i) b = Inr frame
              \<and> io_faults ?E (beamer_file_of ''deck'' i) = NoFault"
      by (simp add: example_env_def)
  qed
  have h9: "convert_page_to_image ?E ''deck.pdf'' 29 (''deck'' @ ''_temp'') = Inr ''base64''"
    by (simp add: example_env_def)
  have h10: "generate_beamer_frame ?E (?content ! 29) ''base64''
               = Inl (LibraryError ''quota exceeded'')"
    by (simp add: example_env_def)
  from main_generation_failure_aborts [OF h1 h2 h3 h4 h5 h6 h7 h8 h9 h10]
  obtain w' where w': "?m = (w', Some (LibraryError ''quota exceeded''))"
    "stdout w' = stdout empty_world @ concat (map (page_lines ''deck'') [28..<29])"
    "files w' (''deck'' @ ''_full.tex'') = files empty_world (''deck'' @ ''_full.tex'')"
    "\<forall>j\<ge>29. files w' (beamer_file_of ''deck'' j) = files empty_world (beamer_file_of ''deck'' j)"
    by blast
  have a: "files (fst ?m) ''deck_beamers/deck_page_28.tex'' = Some (nl @ ''frame 28'' @ nl @ nl)"
    by code_simp
  have e: "stdout empty_world = []" "\<And>path. files empty_world path = None"
    by (simp_all add: empty_world_def)
  from w' e a have "(28::nat) \<le> 29
   \<and> snd ?m = Some (LibraryError ''quota exceeded'')
   \<and> stdout (fst ?m) = page_lines ''deck'' 28
   \<and> files (fst ?m) ''deck_full.tex'' = None
   \<and> files (fst ?m) (beamer_file_of ''deck'' 29) = None
   \<and> files (fst ?m) ''deck_beamers/deck_page_28.tex'' = Some (nl @ ''frame 28'' @ nl @ nl)"
    by simp
  with h1 show ?thesis by (rule conjI)
qed

end
